theory Spec2Isabelle
  imports Main "HOL-Library.Sublist"
begin

section \<open>Workflow documents\<close>

text \<open>
  The program reads a ComfyUI workflow (a JSON document stored in a PNG text chunk) and
  walks its node graph backwards from the image-saving node to the prompt text.
  The model types the document as the specification's data model does: a node carries an
  integer id; every attribute the code reads through \<^verbatim>\<open>dict.get\<close> or tests with
  \<^verbatim>\<open>in\<close> is optional (\<open>None\<close> is the absent key).

  A JSON scalar is what a link id, a node reference inside a link record, or the value of
  a slot's \<^verbatim>\<open>link\<close> attribute can be.  \<open>JNull\<close> is JSON \<^verbatim>\<open>null\<close>,
  Python's \<^verbatim>\<open>None\<close>.
\<close>

datatype jscalar = JNull | JInt int | JStr string

text \<open>
  \<^verbatim>\<open>widgets_values\<close> is loosely typed: any JSON value.  A number is modelled by an
  integer: the code only observes whether it is zero.
\<close>

datatype wval =
    WNone
  | WBool bool
  | WNum int
  | WStr string
  | WList "wval list"
  | WDict "(string \<times> wval) list"

record slot =
  slot_name :: "string option"
  slot_type :: "string option"
  slot_link :: "jscalar option"

record node =
  node_id :: int
  node_type :: "string option"
  node_order :: "int option"
  node_inputs :: "slot list option"
  node_widgets_values :: "wval option"

text \<open>
  A link record is a positional JSON array; the code uses the first six fields of a
  record that has at least six.  The two top-level keys are read with
  \<^verbatim>\<open>workflow.get(key, [])\<close>, so an absent key is the empty list.
\<close>

record workflow =
  wf_nodes :: "node list"
  wf_links :: "jscalar list list"

text \<open>The exceptions the graph code can raise.\<close>

datatype py_error =
    KeyError jscalar
  | TypeError
  | IndexError
  | DecodeError

type_synonym link_map = "jscalar \<rightharpoonup> (jscalar \<times> jscalar \<times> jscalar \<times> jscalar \<times> jscalar)"

subsection \<open>Python primitives\<close>

text \<open>\<^verbatim>\<open>sub in s\<close> on strings: \<open>sub\<close> occurs as a contiguous substring of \<open>s\<close>.\<close>

fun py_in :: "string \<Rightarrow> string \<Rightarrow> bool" where
  "py_in sub [] = (sub = [])"
| "py_in sub (c # cs) = (prefix sub (c # cs) \<or> py_in sub cs)"

text \<open>
  \<^verbatim>\<open>str.strip()\<close>.  A character is a code point below 256; these are the ones
  \<^verbatim>\<open>str.isspace\<close> accepts in that range.
\<close>

definition is_space :: "char \<Rightarrow> bool" where
  "is_space c = (of_char c \<in> {9, 10, 11, 12, 13, 28, 29, 30, 31, 32, 133, 160 :: nat})"

definition strip :: "string \<Rightarrow> string" where
  "strip s = rev (dropWhile is_space (rev (dropWhile is_space s)))"

text \<open>
  \<^verbatim>\<open>max(xs, key=f)\<close> on a non-empty list \<open>x # xs\<close> is \<open>max_from f x xs\<close>: the
  running maximum is replaced only by a strictly greater key, so the first maximal
  element wins.  Both call sites guard against the empty list before calling it.
\<close>

fun max_from :: "('a \<Rightarrow> 'k::linorder) \<Rightarrow> 'a \<Rightarrow> 'a list \<Rightarrow> 'a" where
  "max_from key best [] = best"
| "max_from key best (x # xs) = max_from key (if key best < key x then x else best) xs"

text \<open>Truthiness of the values the code tests with \<^verbatim>\<open>if x\<close> / \<^verbatim>\<open>if not x\<close>.\<close>

fun truthy_scalar :: "jscalar \<Rightarrow> bool" where
  "truthy_scalar JNull = False"
| "truthy_scalar (JInt i) = (i \<noteq> 0)"
| "truthy_scalar (JStr s) = (s \<noteq> [])"

fun truthy_wval :: "wval \<Rightarrow> bool" where
  "truthy_wval WNone = False"
| "truthy_wval (WBool b) = b"
| "truthy_wval (WNum i) = (i \<noteq> 0)"
| "truthy_wval (WStr s) = (s \<noteq> [])"
| "truthy_wval (WList xs) = (xs \<noteq> [])"
| "truthy_wval (WDict kvs) = (kvs \<noteq> [])"

fun truthy_str :: "string option \<Rightarrow> bool" where
  "truthy_str None = False"
| "truthy_str (Some s) = (s \<noteq> [])"

subsection \<open>Attribute access with defaults\<close>

definition get_type :: "node \<Rightarrow> string" where
  "get_type n = (case node_type n of None \<Rightarrow> [] | Some t \<Rightarrow> t)"

definition get_order :: "node \<Rightarrow> int" where
  "get_order n = (case node_order n of None \<Rightarrow> 0 | Some k \<Rightarrow> k)"

definition get_inputs :: "node \<Rightarrow> slot list" where
  "get_inputs n = (case node_inputs n of None \<Rightarrow> [] | Some xs \<Rightarrow> xs)"

section \<open>Link index and node registry\<close>

text \<open>
  \<^verbatim>\<open>build_link_map\<close>: records shorter than six fields are skipped; a later record with
  the same id overwrites an earlier one.
\<close>

definition add_link :: "jscalar list \<Rightarrow> link_map \<Rightarrow> link_map" where
  "add_link rec m =
     (if 6 \<le> length rec
      then m(rec ! 0 \<mapsto> (rec ! 1, rec ! 2, rec ! 3, rec ! 4, rec ! 5))
      else m)"

definition build_link_map :: "workflow \<Rightarrow> link_map" where
  "build_link_map w = fold add_link (wf_links w) Map.empty"

text \<open>\<^verbatim>\<open>get_node_by_id\<close>: the first node whose id equals the queried value.\<close>

definition get_node_by_id :: "workflow \<Rightarrow> jscalar \<Rightarrow> node option" where
  "get_node_by_id w k = find (\<lambda>n. JInt (node_id n) = k) (wf_nodes w)"

text \<open>
  The lookup every traversal performs on a slot's link value \<open>k\<close>:
  \<^verbatim>\<open>src_id = link_map[k][0];  pred = get_node_by_id(workflow, src_id)\<close>.
  Subscripting the dict with a key it does not hold raises \<^verbatim>\<open>KeyError\<close>.
\<close>

definition link_source :: "workflow \<Rightarrow> link_map \<Rightarrow> jscalar \<Rightarrow> py_error + node option" where
  "link_source w lm k =
     (case lm k of
        None \<Rightarrow> Inl (KeyError k)
      | Some (src_id, src_slot, dst_id, dst_slot, ltype) \<Rightarrow> Inr (get_node_by_id w src_id))"

section \<open>Output-node locator\<close>

definition is_saveimage :: "node \<Rightarrow> bool" where
  "is_saveimage n = (py_in ''SaveImage'' (get_type n) \<or> py_in ''Save Image'' (get_type n))"

definition find_highest_order_saveimage :: "workflow \<Rightarrow> node option" where
  "find_highest_order_saveimage w =
     (let cands = filter is_saveimage (wf_nodes w)
      in case cands of [] \<Rightarrow> None | c # cs \<Rightarrow> Some (max_from get_order c cs))"

text \<open>
  \<^verbatim>\<open>find_input_link_id\<close>: the \<^verbatim>\<open>link\<close> value of the first slot with the given name
  that has the attribute; Python's \<^verbatim>\<open>None\<close> (here \<open>JNull\<close>) when there is none.
\<close>

fun find_input_link_id_in :: "slot list \<Rightarrow> string \<Rightarrow> jscalar" where
  "find_input_link_id_in [] name = JNull"
| "find_input_link_id_in (inp # rest) name =
     (if slot_name inp = Some name
      then (case slot_link inp of Some k \<Rightarrow> k | None \<Rightarrow> find_input_link_id_in rest name)
      else find_input_link_id_in rest name)"

definition find_input_link_id :: "node \<Rightarrow> string \<Rightarrow> jscalar" where
  "find_input_link_id n name = find_input_link_id_in (get_inputs n) name"

section \<open>The two upstream searches\<close>

text \<open>
  Both searches are the same loop over a FIFO queue of nodes and a set of seen ids:
  \<^verbatim>\<open>
    while q:
        node = q.popleft()
        if node["id"] in seen: continue
        seen.add(node["id"])
        <stop test: may return or raise>
        for inp in node.get("inputs", []):
            if "link" in inp <and the slot is selected>:
                src_id = link_map[inp["link"]][0]
                pred = get_node_by_id(workflow, src_id)
                if pred: q.append(pred)
    return None
  \<close>
  They differ in the stop test and in which slots are followed.  The set \<open>seen\<close> is kept
  as the list of its elements in the order they were added, and the loop returns it next
  to the function's result, so that the order in which nodes were processed can be read
  off.  A \<^verbatim>\<open>while\<close> loop need not terminate: the loop is a partial function and \<open>None\<close>
  is "does not return".
\<close>

text \<open>The second \<^verbatim>\<open>for\<close> loop: the nodes appended to the queue, or the exception.\<close>

fun enqueue_preds :: "workflow \<Rightarrow> link_map \<Rightarrow> (slot \<Rightarrow> bool) \<Rightarrow> slot list \<Rightarrow> py_error + node list" where
  "enqueue_preds w lm sel [] = Inr []"
| "enqueue_preds w lm sel (inp # rest) =
     (case slot_link inp of
        None \<Rightarrow> enqueue_preds w lm sel rest
      | Some k \<Rightarrow>
          if sel inp then
            (case link_source w lm k of
               Inl e \<Rightarrow> Inl e
             | Inr pred \<Rightarrow>
                 (case enqueue_preds w lm sel rest of
                    Inl e \<Rightarrow> Inl e
                  | Inr ps \<Rightarrow> (case pred of None \<Rightarrow> Inr ps | Some p \<Rightarrow> Inr (p # ps))))
          else enqueue_preds w lm sel rest)"

partial_function (option) bfs_loop ::
  "(node \<Rightarrow> (py_error + node option) option) \<Rightarrow> (slot \<Rightarrow> bool) \<Rightarrow> workflow \<Rightarrow> link_map \<Rightarrow>
   node list \<Rightarrow> int list \<Rightarrow> ((py_error + node option) \<times> int list) option" where
  "bfs_loop stop sel w lm q seen =
     (case q of
        [] \<Rightarrow> Some (Inr None, seen)
      | n # rest \<Rightarrow>
          if node_id n \<in> set seen then bfs_loop stop sel w lm rest seen
          else
            (case stop n of
               Some r \<Rightarrow> Some (r, seen @ [node_id n])
             | None \<Rightarrow>
                 (case enqueue_preds w lm sel (get_inputs n) of
                    Inl e \<Rightarrow> Some (Inl e, seen @ [node_id n])
                  | Inr ps \<Rightarrow> bfs_loop stop sel w lm (rest @ ps) (seen @ [node_id n]))))"

text \<open>
  The stop test of \<^verbatim>\<open>bfs_upstream_to_positive_source\<close> (its first \<^verbatim>\<open>for\<close> loop): the
  first slot named \<^verbatim>\<open>positive\<close> that has a \<^verbatim>\<open>link\<close> attribute ends the search, with
  the source node of that link or with the \<^verbatim>\<open>KeyError\<close> of the lookup.
\<close>

fun positive_source :: "workflow \<Rightarrow> link_map \<Rightarrow> slot list \<Rightarrow> (py_error + node option) option" where
  "positive_source w lm [] = None"
| "positive_source w lm (inp # rest) =
     (if slot_name inp = Some ''positive'' then
        (case slot_link inp of
           None \<Rightarrow> positive_source w lm rest
         | Some k \<Rightarrow> Some (link_source w lm k))
      else positive_source w lm rest)"

definition positive_loop ::
  "workflow \<Rightarrow> node list \<Rightarrow> int list \<Rightarrow> ((py_error + node option) \<times> int list) option" where
  "positive_loop w q seen =
     bfs_loop (\<lambda>n. positive_source w (build_link_map w) (get_inputs n)) (\<lambda>inp. True)
       w (build_link_map w) q seen"

definition bfs_upstream_to_positive_source ::
  "workflow \<Rightarrow> node \<Rightarrow> (py_error + node option) option" where
  "bfs_upstream_to_positive_source w start_node = map_option fst (positive_loop w [start_node] [])"

text \<open>
  \<^verbatim>\<open>find_upstream_clip_encode\<close>: the stop test is on the node's type and cannot raise;
  only slots whose declared type is in the allow-list are followed.
\<close>

definition is_clip :: "node \<Rightarrow> bool" where
  "is_clip n = py_in ''CLIPTextEncode'' (get_type n)"

definition clip_stop :: "node \<Rightarrow> (py_error + node option) option" where
  "clip_stop n = (if is_clip n then Some (Inr (Some n)) else None)"

definition allowed_type :: "slot \<Rightarrow> bool" where
  "allowed_type inp =
     (slot_type inp \<in> {Some ''CONDITIONING'', Some ''CLIP'', Some ''STRING'', Some ''any''})"

definition clip_loop ::
  "workflow \<Rightarrow> node list \<Rightarrow> int list \<Rightarrow> ((py_error + node option) \<times> int list) option" where
  "clip_loop w q seen = bfs_loop clip_stop allowed_type w (build_link_map w) q seen"

definition find_upstream_clip_encode ::
  "workflow \<Rightarrow> node \<Rightarrow> (py_error + node option) option" where
  "find_upstream_clip_encode w start_node = map_option fst (clip_loop w [start_node] [])"

section \<open>String resolver\<close>

text \<open>\<^verbatim>\<open>flatten_strings\<close>: the strings of a nested list, left to right.\<close>

fun flatten_strings :: "wval \<Rightarrow> string list" where
  "flatten_strings (WStr s) = [s]"
| "flatten_strings (WList xs) = concat (map flatten_strings xs)"
| "flatten_strings WNone = []"
| "flatten_strings (WBool b) = []"
| "flatten_strings (WNum i) = []"
| "flatten_strings (WDict kvs) = []"

text \<open>
  \<^verbatim>\<open>wv[0]\<close>: the first element of a list, the first character of a string, a
  \<^verbatim>\<open>KeyError\<close> on a dict (its keys are strings) and a \<^verbatim>\<open>TypeError\<close> on anything else.
\<close>

fun subscript0 :: "wval \<Rightarrow> py_error + wval" where
  "subscript0 (WList (x # xs)) = Inr x"
| "subscript0 (WList []) = Inl IndexError"
| "subscript0 (WStr (c # cs)) = Inr (WStr [c])"
| "subscript0 (WStr []) = Inl IndexError"
| "subscript0 (WDict kvs) = Inl (KeyError (JInt 0))"
| "subscript0 WNone = Inl TypeError"
| "subscript0 (WBool b) = Inl TypeError"
| "subscript0 (WNum i) = Inl TypeError"

text \<open>
  Rule 1 (source lines 123-129).  \<open>Inr (Some s)\<close>: the helper returns \<open>s\<close> here;
  \<open>Inr None\<close>: it goes on to the next rule; \<open>Inl e\<close>: \<^verbatim>\<open>wv[0]\<close> raised.
\<close>

definition text_linked :: "node \<Rightarrow> bool" where
  "text_linked n =
     (case find (\<lambda>i. slot_name i = Some ''text'') (get_inputs n) of
        None \<Rightarrow> False
      | Some text_input \<Rightarrow> slot_link text_input \<noteq> None)"

definition clip_inline :: "node \<Rightarrow> py_error + string option" where
  "clip_inline n =
     (if is_clip n then
        (let linked = text_linked n;
             wv = (case node_widgets_values n of None \<Rightarrow> WList [] | Some v \<Rightarrow> v)
         in if \<not> linked \<and> truthy_wval wv then
              (case subscript0 wv of
                 Inl e \<Rightarrow> Inl e
               | Inr (WStr s) \<Rightarrow> Inr (Some (strip s))
               | Inr other \<Rightarrow> Inr None)
            else Inr None)
      else Inr None)"

text \<open>Rule 2 (source lines 132-137): the first longest string that is not blank, stripped.\<close>

definition widget_string :: "node \<Rightarrow> string option" where
  "widget_string n =
     (case node_widgets_values n of
        None \<Rightarrow> None
      | Some wv \<Rightarrow>
          if truthy_wval wv then
            (case filter (\<lambda>s. strip s \<noteq> []) (flatten_strings wv) of
               [] \<Rightarrow> None
             | s # strs \<Rightarrow> Some (strip (max_from length s strs)))
          else None)"

definition named_text :: "slot \<Rightarrow> bool" where
  "named_text inp = (slot_name inp = Some ''text'')"

definition typed_string :: "slot \<Rightarrow> bool" where
  "typed_string inp = (slot_type inp = Some ''STRING'')"

text \<open>
  \<^verbatim>\<open>helper\<close> recurses through the graph; \<open>visited\<close> is the set shared by all calls
  of one resolution, threaded through as the list of its elements in insertion order.
  The recursion depth is bounded by fuel: \<open>None\<close> is "fuel exhausted" (the
  interpreter's own recursion limit is not modelled).  \<open>follow\<close> is
  either of the two \<^verbatim>\<open>for\<close> loops of rules 3 and 4 (lines 140-147 and 150-157, the
  same body under a different slot test \<open>sel\<close>).
\<close>

fun helper ::
    "nat \<Rightarrow> workflow \<Rightarrow> link_map \<Rightarrow> int list \<Rightarrow> node \<Rightarrow> ((py_error + string option) \<times> int list) option"
  and follow ::
    "nat \<Rightarrow> workflow \<Rightarrow> link_map \<Rightarrow> (slot \<Rightarrow> bool) \<Rightarrow> int list \<Rightarrow> slot list \<Rightarrow>
       ((py_error + string option) \<times> int list) option"
where
  "helper 0 w lm visited n = None"
| "helper (Suc fuel) w lm visited n =
     (if node_id n \<in> set visited then Some (Inr None, visited)
      else
        (case clip_inline n of
           Inl e \<Rightarrow> Some (Inl e, visited @ [node_id n])
         | Inr (Some s) \<Rightarrow> Some (Inr (Some s), visited @ [node_id n])
         | Inr None \<Rightarrow>
             (case widget_string n of
                Some s \<Rightarrow> Some (Inr (Some s), visited @ [node_id n])
              | None \<Rightarrow>
                  (case follow fuel w lm named_text (visited @ [node_id n]) (get_inputs n) of
                     None \<Rightarrow> None
                   | Some (Inl e, v) \<Rightarrow> Some (Inl e, v)
                   | Some (Inr r, v) \<Rightarrow>
                       if truthy_str r then Some (Inr r, v)
                       else follow fuel w lm typed_string v (get_inputs n)))))"
| "follow fuel w lm sel visited [] = Some (Inr None, visited)"
| "follow fuel w lm sel visited (inp # rest) =
     (if sel inp then
        (case slot_link inp of
           None \<Rightarrow> follow fuel w lm sel visited rest
         | Some k \<Rightarrow>
             (case link_source w lm k of
                Inl e \<Rightarrow> Some (Inl e, visited)
              | Inr None \<Rightarrow> follow fuel w lm sel visited rest
              | Inr (Some pred) \<Rightarrow>
                  (case helper fuel w lm visited pred of
                     None \<Rightarrow> None
                   | Some (Inl e, v) \<Rightarrow> Some (Inl e, v)
                   | Some (Inr res, v) \<Rightarrow>
                       if truthy_str res then Some (Inr res, v)
                       else follow fuel w lm sel v rest)))
      else follow fuel w lm sel visited rest)"

text \<open>
  \<^verbatim>\<open>extract_string_value_recursive\<close> starts the helper on an empty visited set.  The
  fuel it is given is more than the recursion can use, and more fuel gives the same
  result (lemmas \<open>resolver_fuel_enough\<close> and \<open>helper_fuel_add\<close>).
\<close>

definition resolver_fuel :: "workflow \<Rightarrow> nat" where
  "resolver_fuel w = length (wf_nodes w) + 2"

definition extract_string_value_recursive ::
  "workflow \<Rightarrow> node \<Rightarrow> (py_error + string option) option" where
  "extract_string_value_recursive w n =
     map_option fst (helper (resolver_fuel w) w (build_link_map w) [] n)"

section \<open>The per-document entry point\<close>

text \<open>
  What opening the image and decoding its \<^verbatim>\<open>workflow\<close> text chunk gives: an exception
  (unreadable file, malformed JSON), no workflow text, or a parsed workflow.
\<close>

datatype png_document = Undecodable | WithoutWorkflow | WithWorkflow workflow

datatype reason =
    NoWorkflow
  | NoSaveimage
  | NoSaveimageImagesLink
  | NoStartFromSaveimage
  | NoPositiveFound
  | NoClipEncodeUpstream
  | NoPromptResolved
  | ErrorReason py_error

text \<open>
  The result is the pair \<^verbatim>\<open>(prompt, reason)\<close>; the \<^verbatim>\<open>except Exception\<close> clause turns
  every exception of the body into an \<open>ErrorReason\<close>.  The outer \<open>option\<close> is \<open>None\<close> only
  if one of the searches or the resolver does not return.
\<close>

definition extract_final_positive_prompt_from_png ::
  "png_document \<Rightarrow> (string option \<times> reason option) option" where
  "extract_final_positive_prompt_from_png doc =
     (case doc of
        Undecodable \<Rightarrow> Some (None, Some (ErrorReason DecodeError))
      | WithoutWorkflow \<Rightarrow> Some (None, Some NoWorkflow)
      | WithWorkflow w \<Rightarrow>
     (case find_highest_order_saveimage w of
        None \<Rightarrow> Some (None, Some NoSaveimage)
      | Some save \<Rightarrow>
     (let images_link = find_input_link_id save ''images'' in
      if \<not> truthy_scalar images_link then Some (None, Some NoSaveimageImagesLink)
      else
     (case link_source w (build_link_map w) images_link of
        Inl e \<Rightarrow> Some (None, Some (ErrorReason e))
      | Inr None \<Rightarrow> Some (None, Some NoStartFromSaveimage)
      | Inr (Some start_node) \<Rightarrow>
     (case bfs_upstream_to_positive_source w start_node of
        None \<Rightarrow> None
      | Some (Inl e) \<Rightarrow> Some (None, Some (ErrorReason e))
      | Some (Inr None) \<Rightarrow> Some (None, Some NoPositiveFound)
      | Some (Inr (Some pos_src)) \<Rightarrow>
     (case find_upstream_clip_encode w pos_src of
        None \<Rightarrow> None
      | Some (Inl e) \<Rightarrow> Some (None, Some (ErrorReason e))
      | Some (Inr None) \<Rightarrow> Some (None, Some NoClipEncodeUpstream)
      | Some (Inr (Some clip_node)) \<Rightarrow>
     (case extract_string_value_recursive w clip_node of
        None \<Rightarrow> None
      | Some (Inl e) \<Rightarrow> Some (None, Some (ErrorReason e))
      | Some (Inr prompt) \<Rightarrow>
          if \<not> truthy_str prompt then Some (None, Some NoPromptResolved)
          else Some (prompt, None))))))))"

declare bfs_loop.simps [code]

section \<open>The specification's notions\<close>

text \<open>
  The specification describes both searches as a breadth-first traversal "over the feeds
  into relation, expanding backward (a node's predecessors are the source nodes of its
  connected input links)", with a visited set keyed by node id, and says that a link id
  the link table does not hold is "no link".  \<open>spec_preds\<close> are these predecessors of a
  node, through the slots \<open>sel\<close> selects, in slot order; \<open>spec_bfs_order\<close> is the order in
  which that traversal takes the nodes off its FIFO queue and processes them, with no
  stop test.  These two follow the specification's words, not the code.
\<close>

fun spec_preds :: "workflow \<Rightarrow> link_map \<Rightarrow> (slot \<Rightarrow> bool) \<Rightarrow> slot list \<Rightarrow> node list" where
  "spec_preds w lm sel [] = []"
| "spec_preds w lm sel (inp # rest) =
     (case slot_link inp of
        None \<Rightarrow> spec_preds w lm sel rest
      | Some k \<Rightarrow>
          if sel inp then
            (case lm k of
               None \<Rightarrow> spec_preds w lm sel rest
             | Some (src_id, src_slot, dst_id, dst_slot, ltype) \<Rightarrow>
                 (case get_node_by_id w src_id of
                    None \<Rightarrow> spec_preds w lm sel rest
                  | Some p \<Rightarrow> p # spec_preds w lm sel rest))
          else spec_preds w lm sel rest)"

partial_function (option) spec_bfs_order ::
  "(slot \<Rightarrow> bool) \<Rightarrow> workflow \<Rightarrow> link_map \<Rightarrow> node list \<Rightarrow> int list \<Rightarrow> node list option" where
  "spec_bfs_order sel w lm q seen =
     (case q of
        [] \<Rightarrow> Some []
      | n # rest \<Rightarrow>
          if node_id n \<in> set seen then spec_bfs_order sel w lm rest seen
          else
            Option.bind
              (spec_bfs_order sel w lm (rest @ spec_preds w lm sel (get_inputs n)) (seen @ [node_id n]))
              (\<lambda>ord. Some (n # ord)))"

declare spec_bfs_order.simps [code]

text \<open>
  \<open>resolves lm sel n\<close>: every slot of \<open>n\<close> that \<open>sel\<close> selects and that has a \<^verbatim>\<open>link\<close>
  attribute carries a value the link table holds.
  \<open>lookup_fails lm sel n e\<close>: some such slot carries a value \<open>k\<close> the table does not hold,
  and \<open>e\<close> is the \<^verbatim>\<open>KeyError\<close> of \<open>k\<close>.
\<close>

definition resolves :: "link_map \<Rightarrow> (slot \<Rightarrow> bool) \<Rightarrow> node \<Rightarrow> bool" where
  "resolves lm sel n =
     (\<forall>inp\<in>set (get_inputs n). sel inp \<longrightarrow> (\<forall>k. slot_link inp = Some k \<longrightarrow> lm k \<noteq> None))"

definition lookup_fails :: "link_map \<Rightarrow> (slot \<Rightarrow> bool) \<Rightarrow> node \<Rightarrow> py_error \<Rightarrow> bool" where
  "lookup_fails lm sel n e =
     (\<exists>inp k. inp \<in> set (get_inputs n) \<and> sel inp \<and> slot_link inp = Some k \<and> lm k = None
        \<and> e = KeyError k)"

text \<open>
  The slots through which the string resolver goes upstream: rule 3 follows the slots
  named \<^verbatim>\<open>text\<close>, rule 4 the slots typed \<^verbatim>\<open>STRING\<close>.
\<close>

definition text_source :: "slot \<Rightarrow> bool" where
  "text_source inp = (named_text inp \<or> typed_string inp)"

text \<open>
  What the loop answers when it processes the nodes \<open>ord\<close> in this order: the answer of
  the stop test, or the exception of the expansion, at the first node that has one.
\<close>

fun first_outcome ::
  "(node \<Rightarrow> (py_error + node option) option) \<Rightarrow> (slot \<Rightarrow> bool) \<Rightarrow> workflow \<Rightarrow> link_map \<Rightarrow>
   node list \<Rightarrow> py_error + node option" where
  "first_outcome stop sel w lm [] = Inr None"
| "first_outcome stop sel w lm (m # ms) =
     (case stop m of
        Some r \<Rightarrow> r
      | None \<Rightarrow>
          (case enqueue_preds w lm sel (get_inputs m) of
             Inl e \<Rightarrow> Inl e
           | Inr ps \<Rightarrow> first_outcome stop sel w lm ms))"

section \<open>Example documents\<close>

definition mk_slot :: "string \<Rightarrow> string \<Rightarrow> jscalar option \<Rightarrow> slot" where
  "mk_slot nm ty l = \<lparr>slot_name = Some nm, slot_type = Some ty, slot_link = l\<rparr>"

definition mk_node :: "int \<Rightarrow> string \<Rightarrow> int option \<Rightarrow> slot list \<Rightarrow> wval option \<Rightarrow> node" where
  "mk_node i ty ord ins wv =
     \<lparr>node_id = i, node_type = Some ty, node_order = ord, node_inputs = Some ins,
      node_widgets_values = wv\<rparr>"

definition mk_link :: "int \<Rightarrow> int \<Rightarrow> int \<Rightarrow> string \<Rightarrow> jscalar list" where
  "mk_link l src dst ty = [JInt l, JInt src, JInt 0, JInt dst, JInt 0, JStr ty]"

text \<open>Four image-saving nodes among five; two share the highest order, one has none.\<close>

definition save_nodes :: workflow where
  "save_nodes =
     \<lparr>wf_nodes =
        [mk_node 1 ''SaveImage'' (Some 1) [] None,
         mk_node 2 ''KSampler'' (Some 9) [] None,
         mk_node 3 ''Save Image (custom)'' (Some 5) [] None,
         mk_node 4 ''SaveImage'' (Some 5) [] None,
         mk_node 5 ''SaveImageWebsocket'' None [] None],
      wf_links = []\<rparr>"

text \<open>
  A graph with a cycle (1 \<rightarrow> 2 \<rightarrow> 1), a second cycle through node 3 and
  re-convergent paths; it has no \<^verbatim>\<open>positive\<close> slot, no text encoder and no literal.
\<close>

definition cyc1 :: node where
  "cyc1 = mk_node 1 ''ConditioningCombine'' None
     [mk_slot ''a'' ''CONDITIONING'' (Some (JInt 12)),
      mk_slot ''b'' ''CONDITIONING'' (Some (JInt 13))] None"

definition cyc2 :: node where
  "cyc2 = mk_node 2 ''ConditioningConcat'' None
     [mk_slot ''a'' ''CONDITIONING'' (Some (JInt 21)),
      mk_slot ''text'' ''STRING'' (Some (JInt 21))] None"

definition cyc3 :: node where
  "cyc3 = mk_node 3 ''Reroute'' None [mk_slot ''text'' ''STRING'' (Some (JInt 32))] None"

definition cyc :: workflow where
  "cyc = \<lparr>wf_nodes = [cyc1, cyc2, cyc3],
           wf_links = [mk_link 12 2 1 ''CONDITIONING'', mk_link 13 3 1 ''CONDITIONING'',
                       mk_link 21 1 2 ''CONDITIONING'', mk_link 32 2 3 ''STRING'']\<rparr>"

text \<open>
  The usual pipeline: checkpoint \<rightarrow> text encoder \<rightarrow> sampler (\<^verbatim>\<open>positive\<close>) \<rightarrow>
  decoder \<rightarrow> save node.  The encoder's \<^verbatim>\<open>text\<close> slot has no \<^verbatim>\<open>link\<close> attribute and the
  prompt is its first widget value.
\<close>

definition encoder :: node where
  "encoder = mk_node 1 ''CLIPTextEncode'' (Some 1)
     [mk_slot ''clip'' ''CLIP'' (Some (JInt 10)), mk_slot ''text'' ''STRING'' None]
     (Some (WList [WStr ''a cat, masterpiece'']))"

definition pipeline :: workflow where
  "pipeline =
     \<lparr>wf_nodes =
        [encoder,
         mk_node 2 ''KSampler'' (Some 2)
           [mk_slot ''model'' ''MODEL'' (Some (JInt 11)),
            mk_slot ''positive'' ''CONDITIONING'' (Some (JInt 12))] (Some (WList [WNum 42, WStr ''euler''])),
         mk_node 3 ''VAEDecode'' (Some 3) [mk_slot ''samples'' ''LATENT'' (Some (JInt 13))] None,
         mk_node 4 ''SaveImage'' (Some 4) [mk_slot ''images'' ''IMAGE'' (Some (JInt 14))] None,
         mk_node 5 ''CheckpointLoaderSimple'' (Some 0) [] None],
      wf_links =
        [mk_link 10 5 1 ''CLIP'', mk_link 11 5 2 ''MODEL'', mk_link 12 1 2 ''CONDITIONING'',
         mk_link 13 2 3 ''LATENT'', mk_link 14 3 4 ''IMAGE'']\<rparr>"

text \<open>A node that only shows text: two widget strings, the second one longer.\<close>

definition show_text :: node where
  "show_text = mk_node 7 ''ShowText'' None []
     (Some (WList [WStr ''neg'', WStr ''a cat, highly detailed, 4k'']))"

text \<open>
  A text encoder whose \<^verbatim>\<open>text\<close> slot is unconnected the way the editor saves it:
  \<^verbatim>\<open>"link": null\<close>.  Its first widget string is the shorter one.
\<close>

definition null_linked :: "wval option \<Rightarrow> node" where
  "null_linked wv = mk_node 8 ''CLIPTextEncode'' None [mk_slot ''text'' ''STRING'' (Some JNull)] wv"

definition two_strings :: wval where
  "two_strings = WList [WStr '' short '', WStr ''the longer literal'']"

text \<open>
  A conditioning node with three inputs: an \<^verbatim>\<open>IMAGE\<close> slot whose link id 99 is in no
  link record, a \<^verbatim>\<open>LATENT\<close> slot that leads to text encoder 21, and a
  \<^verbatim>\<open>CONDITIONING\<close> slot that leads through a reroute node to text encoder 23.
\<close>

definition combine :: node where
  "combine = mk_node 20 ''ConditioningCombine'' None
     [mk_slot ''image'' ''IMAGE'' (Some (JInt 99)),
      mk_slot ''latent'' ''LATENT'' (Some (JInt 31)),
      mk_slot ''conditioning_1'' ''CONDITIONING'' (Some (JInt 32))] None"

definition encoder_b :: node where
  "encoder_b = mk_node 21 ''CLIPTextEncode'' None [] (Some (WList [WStr ''unrelated'']))"

definition reroute :: node where
  "reroute = mk_node 22 ''Reroute'' None [mk_slot ''in'' ''any'' (Some (JInt 33))] None"

definition encoder_a :: node where
  "encoder_a = mk_node 23 ''CLIPTextEncodeSDXL'' None [] (Some (WList [WStr ''a dog'']))"

definition branches :: workflow where
  "branches =
     \<lparr>wf_nodes = [combine, encoder_b, reroute, encoder_a],
      wf_links = [mk_link 31 21 20 ''LATENT'', mk_link 32 22 20 ''CONDITIONING'',
                  mk_link 33 23 22 ''CONDITIONING'']\<rparr>"

text \<open>The decoder, the sampler and the checkpoint loader of the pipeline, by name.\<close>

definition decoder :: node where
  "decoder = mk_node 3 ''VAEDecode'' (Some 3) [mk_slot ''samples'' ''LATENT'' (Some (JInt 13))] None"

definition sampler :: node where
  "sampler = mk_node 2 ''KSampler'' (Some 2)
           [mk_slot ''model'' ''MODEL'' (Some (JInt 11)),
            mk_slot ''positive'' ''CONDITIONING'' (Some (JInt 12))] (Some (WList [WNum 42, WStr ''euler'']))"

text \<open>
  A string node whose \<^verbatim>\<open>text\<close> slot carries link id 99, which no link record has,
  and whose second \<^verbatim>\<open>STRING\<close> slot leads to a node holding a literal.
\<close>

definition dangling_text :: node where
  "dangling_text = mk_node 30 ''StringConcatenate'' None
     [mk_slot ''text'' ''STRING'' (Some (JInt 99)),
      mk_slot ''fallback'' ''STRING'' (Some (JInt 40))] None"

definition dangling :: workflow where
  "dangling =
     \<lparr>wf_nodes = [dangling_text,
                   mk_node 31 ''PrimitiveString'' None [] (Some (WList [WStr ''fallback text'']))],
      wf_links = [mk_link 40 31 30 ''STRING'']\<rparr>"

definition checkpoint :: node where
  "checkpoint = mk_node 5 ''CheckpointLoaderSimple'' (Some 0) [] None"

text \<open>
  A sampler with two slots named \<^verbatim>\<open>positive\<close>: the first carries link id 77, which no
  link record of the pipeline has, the second carries link 12, which comes from the
  encoder.
\<close>

definition two_positives :: node where
  "two_positives = mk_node 42 ''SamplerCustom'' None
     [mk_slot ''positive'' ''CONDITIONING'' (Some (JInt 77)),
      mk_slot ''positive'' ''CONDITIONING'' (Some (JInt 12))] None"

text \<open>
  A conditioning node for workflow \<open>branches\<close>: its first input leads through the reroute
  node to text encoder 23, its second input carries link id 77, which no link record has.
\<close>

definition loose :: node where
  "loose = mk_node 41 ''ConditioningCombine'' None
     [mk_slot ''conditioning_1'' ''CONDITIONING'' (Some (JInt 32)),
      mk_slot ''conditioning_2'' ''CONDITIONING'' (Some (JInt 77))] None"

text \<open>The pipeline with an encoder whose only widget value is blank.\<close>

definition blank_encoder :: node where
  "blank_encoder = mk_node 1 ''CLIPTextEncode'' (Some 1)
     [mk_slot ''clip'' ''CLIP'' (Some (JInt 10)), mk_slot ''text'' ''STRING'' None]
     (Some (WList [WStr ''   '']))"

definition blank_pipeline :: workflow where
  "blank_pipeline = pipeline\<lparr>wf_nodes := [blank_encoder, sampler, decoder,
      mk_node 4 ''SaveImage'' (Some 4) [mk_slot ''images'' ''IMAGE'' (Some (JInt 14))] None,
      checkpoint]\<rparr>"

text \<open>
  The pipeline with three of its link records lost: the sampler's \<^verbatim>\<open>positive\<close> slot
  carries link id 12, which the link table no longer holds.
\<close>

definition cut_pipeline :: workflow where
  "cut_pipeline = pipeline\<lparr>wf_links := [mk_link 13 2 3 ''LATENT'', mk_link 14 3 4 ''IMAGE'']\<rparr>"

text \<open>A text encoder whose \<^verbatim>\<open>widgets_values\<close> is an object, not a list.\<close>

definition dict_encoder :: node where
  "dict_encoder = mk_node 9 ''CLIPTextEncode'' None [] (Some (WDict [(''text'', WStr ''a cat'')]))"

text \<open>
  The save node of the pipeline, by name, and three damaged pipelines: one that lost all
  link records; one whose conditioning comes from node \<open>loose\<close>, which carries link ids
  the table does not hold; one whose text encoder has a \<^verbatim>\<open>text\<close> slot with link id 99,
  which the table does not hold.
\<close>

definition save_image :: node where
  "save_image = mk_node 4 ''SaveImage'' (Some 4) [mk_slot ''images'' ''IMAGE'' (Some (JInt 14))] None"

definition no_links :: workflow where
  "no_links = pipeline\<lparr>wf_links := []\<rparr>"

definition lost_clip :: workflow where
  "lost_clip =
     \<lparr>wf_nodes = [loose, sampler, decoder, save_image],
      wf_links = [mk_link 12 41 2 ''CONDITIONING'', mk_link 13 2 3 ''LATENT'',
                  mk_link 14 3 4 ''IMAGE'']\<rparr>"

definition linked_encoder :: node where
  "linked_encoder = mk_node 1 ''CLIPTextEncode'' None [mk_slot ''text'' ''STRING'' (Some (JInt 99))] None"

definition lost_text :: workflow where
  "lost_text =
     \<lparr>wf_nodes = [linked_encoder, sampler, decoder, save_image],
      wf_links = [mk_link 12 1 2 ''CONDITIONING'', mk_link 13 2 3 ''LATENT'',
                  mk_link 14 3 4 ''IMAGE'']\<rparr>"

section \<open>Auxiliary facts\<close>

subsection \<open>Maximum by key and filtering\<close>

lemma max_from_ge_init: "key b \<le> key (max_from key b xs)"
proof (induction xs arbitrary: b)
  case Nil
  show ?case by simp
next
  case (Cons x xs)
  show ?case
  proof (cases "key b < key x")
    case True
    have "key x \<le> key (max_from key x xs)" by (rule Cons.IH)
    with True show ?thesis by simp
  next
    case False
    with Cons.IH[of b] show ?thesis by simp
  qed
qed

lemma max_from_split:
  "\<exists>pre post. b # xs = pre @ max_from key b xs # post
      \<and> (\<forall>c\<in>set pre. key c < key (max_from key b xs))
      \<and> (\<forall>c\<in>set post. key c \<le> key (max_from key b xs))"
proof (induction xs arbitrary: b)
  case Nil
  show ?case by (intro exI[of _ "[]"]) simp
next
  case (Cons x xs)
  define b' where "b' = (if key b < key x then x else b)"
  define m where "m = max_from key b' xs"
  have M: "max_from key b (x # xs) = m" by (simp add: m_def b'_def)
  from Cons.IH[of b'] obtain pre post where
    s: "b' # xs = pre @ m # post"
    and lt: "\<forall>c\<in>set pre. key c < key m"
    and le: "\<forall>c\<in>set post. key c \<le> key m" unfolding m_def by blast
  have ge: "key b' \<le> key m" unfolding m_def by (rule max_from_ge_init)
  show ?case unfolding M
  proof (cases "key b < key x")
    case True
    then have b': "b' = x" by (simp add: b'_def)
    have "b # x # xs = (b # pre) @ m # post" using s b' by simp
    moreover have "\<forall>c\<in>set (b # pre). key c < key m" using lt True ge b' by auto
    ultimately show "\<exists>pre post. b # x # xs = pre @ m # post
      \<and> (\<forall>c\<in>set pre. key c < key m) \<and> (\<forall>c\<in>set post. key c \<le> key m)"
      using le by blast
  next
    case False
    then have b': "b' = b" by (simp add: b'_def)
    show "\<exists>pre post. b # x # xs = pre @ m # post
      \<and> (\<forall>c\<in>set pre. key c < key m) \<and> (\<forall>c\<in>set post. key c \<le> key m)"
    proof (cases pre)
      case Nil
      with s b' have bm: "b = m" and p: "xs = post" by simp_all
      have "b # x # xs = [] @ m # (x # xs)" using bm by simp
      moreover have "\<forall>c\<in>set (x # xs). key c \<le> key m" using le False p bm by auto
      moreover have "\<forall>c\<in>set ([]::'a list). key c < key m" by simp
      ultimately show ?thesis by blast
    next
      case (Cons p ps)
      with s b' have pb: "p = b" and xs: "xs = ps @ m # post" by simp_all
      have "b # x # xs = (b # x # ps) @ m # post" using xs by simp
      moreover have "key b < key m" using lt Cons pb by simp
      then have "\<forall>c\<in>set (b # x # ps). key c < key m" using lt Cons False by auto
      ultimately show ?thesis using le by blast
    qed
  qed
qed

lemma filter_split_lift:
  "filter P ns = pre' @ n # post' \<Longrightarrow>
   \<exists>pre post. ns = pre @ n # post \<and> filter P pre = pre' \<and> filter P post = post' \<and> P n"
proof (induction ns arbitrary: pre')
  case Nil
  then show ?case by simp
next
  case (Cons a ns)
  show ?case
  proof (cases "P a")
    case False
    with Cons.prems have "filter P ns = pre' @ n # post'" by simp
    from Cons.IH[OF this] obtain pre post where
      "ns = pre @ n # post" "filter P pre = pre'" "filter P post = post'" "P n" by blast
    with False show ?thesis by (intro exI[of _ "a # pre"] exI[of _ post]) simp
  next
    case True
    with Cons.prems have e: "a # filter P ns = pre' @ n # post'" by simp
    show ?thesis
    proof (cases pre')
      case Nil
      with e True show ?thesis by (intro exI[of _ "[]"] exI[of _ ns]) simp
    next
      case (Cons p ps)
      with e have pa: "p = a" and f: "filter P ns = ps @ n # post'" by simp_all
      from Cons.IH[OF f] obtain pre post where
        "ns = pre @ n # post" "filter P pre = ps" "filter P post = post'" "P n" by blast
      with True Cons pa show ?thesis by (intro exI[of _ "a # pre"] exI[of _ post]) simp
    qed
  qed
qed


subsection \<open>The search loop\<close>

lemma get_node_by_id_in: "get_node_by_id w k = Some p \<Longrightarrow> p \<in> set (wf_nodes w)"
  by (auto simp: get_node_by_id_def find_Some_iff)

lemma link_source_in: "link_source w lm k = Inr (Some p) \<Longrightarrow> p \<in> set (wf_nodes w)"
  by (auto simp: link_source_def split: option.splits dest: get_node_by_id_in)

lemma enqueue_preds_subset:
  "enqueue_preds w lm sel inps = Inr ps \<Longrightarrow> set ps \<subseteq> set (wf_nodes w)"
proof (induction inps arbitrary: ps)
  case Nil
  then show ?case by simp
next
  case (Cons inp rest)
  show ?case
  proof (cases "slot_link inp")
    case None
    with Cons show ?thesis by simp
  next
    case (Some k)
    show ?thesis
    proof (cases "sel inp")
      case False
      with Some Cons show ?thesis by simp
    next
      case True
      from Cons.prems Some True obtain pred ps' where
        src: "link_source w lm k = Inr pred" and
        rest: "enqueue_preds w lm sel rest = Inr ps'" and
        ps: "ps = (case pred of None \<Rightarrow> ps' | Some p \<Rightarrow> p # ps')"
        by (auto split: sum.splits option.splits)
      from Cons.IH[OF rest] have "set ps' \<subseteq> set (wf_nodes w)" .
      with src ps show ?thesis by (cases pred) (auto dest: link_source_in)
    qed
  qed
qed

lemma bfs_induct [case_names Empty Seen Fresh]:
  assumes empty: "\<And>seen. P [] seen"
    and seen: "\<And>n rest seen. node_id n \<in> set seen \<Longrightarrow> P rest seen \<Longrightarrow> P (n # rest) seen"
    and fresh: "\<And>n rest seen. node_id n \<notin> set seen \<Longrightarrow>
        (\<And>ps. set ps \<subseteq> set (wf_nodes w) \<Longrightarrow> P (rest @ ps) (seen @ [node_id n])) \<Longrightarrow>
        P (n # rest) seen"
  shows "P q seen"
proof -
  define todo :: "node list \<times> int list \<Rightarrow> nat" where
    "todo = (\<lambda>(q, seen). card ((node_id ` set (wf_nodes w) \<union> node_id ` set q) - set seen))"
  define R where "R = inv_image (less_than <*lex*> less_than) (\<lambda>x. (todo x, length (fst x)))"
  have wfR: "wf R" unfolding R_def by (intro wf_inv_image wf_lex_prod wf_less_than)
  have "P (fst x) (snd x)" for x
  proof (induction x rule: wf_induct_rule[OF wfR])
    case (1 x)
    obtain q sn where x: "x = (q, sn)" by (cases x)
    show ?case
    proof (cases q)
      case Nil
      with x empty show ?thesis by simp
    next
      case (Cons n rest)
      show ?thesis
      proof (cases "node_id n \<in> set sn")
        case True
        have "todo (rest, sn) \<le> todo (q, sn)"
          unfolding todo_def using Cons by (auto intro!: card_mono)
        then have "((rest, sn), x) \<in> R" unfolding R_def x using Cons by auto
        from 1[OF this] have "P rest sn" by simp
        with True seen Cons x show ?thesis by simp
      next
        case False
        have step: "P (rest @ ps) (sn @ [node_id n])" if ps: "set ps \<subseteq> set (wf_nodes w)" for ps
        proof -
          let ?A = "(node_id ` set (wf_nodes w) \<union> node_id ` set q) - set sn"
          let ?B = "(node_id ` set (wf_nodes w) \<union> node_id ` set (rest @ ps)) - set (sn @ [node_id n])"
          have "?B \<subseteq> ?A - {node_id n}" using ps Cons by auto
          moreover have "node_id n \<in> ?A" using False Cons by simp
          ultimately have "?B \<subset> ?A" by blast
          moreover have "finite ?A" by simp
          ultimately have "card ?B < card ?A" by (rule psubset_card_mono[rotated])
          then have "todo (rest @ ps, sn @ [node_id n]) < todo (q, sn)" by (simp add: todo_def)
          then have "((rest @ ps, sn @ [node_id n]), x) \<in> R" unfolding R_def x by simp
          from 1[OF this] show ?thesis by simp
        qed
        from fresh[OF False step] Cons x show ?thesis by simp
      qed
    qed
  qed
  from this[of "(q, seen)"] show ?thesis by simp
qed

lemma bfs_loop_total:
  "\<exists>r s. bfs_loop stop sel w lm q seen = Some (r, s) \<and> prefix seen s
     \<and> (distinct seen \<longrightarrow> distinct s)"
proof (induction q seen rule: bfs_induct[where w = w])
  case (Empty seen)
  show ?case by (subst bfs_loop.simps) simp
next
  case (Seen n rest seen)
  then show ?case by (subst bfs_loop.simps) simp
next
  case (Fresh n rest seen)
  show ?case
  proof (cases "stop n")
    case (Some r)
    with Fresh(1) show ?thesis by (subst bfs_loop.simps) auto
  next
    case None
    show ?thesis
    proof (cases "enqueue_preds w lm sel (get_inputs n)")
      case (Inl e)
      with None Fresh(1) show ?thesis by (subst bfs_loop.simps) auto
    next
      case (Inr ps)
      from Fresh(2)[OF enqueue_preds_subset[OF Inr]] obtain r s where
        l: "bfs_loop stop sel w lm (rest @ ps) (seen @ [node_id n]) = Some (r, s)"
        and p: "prefix (seen @ [node_id n]) s"
        and d: "distinct (seen @ [node_id n]) \<longrightarrow> distinct s" by blast
      from p have "prefix seen s" by (rule append_prefixD)
      moreover from d Fresh(1) have "distinct seen \<longrightarrow> distinct s" by simp
      ultimately show ?thesis using None Inr Fresh(1) l by (subst bfs_loop.simps) simp
    qed
  qed
qed

subsection \<open>Stripping and the resolver\<close>

lemma dropWhile_fixed: "xs = [] \<or> \<not> P (hd xs) \<Longrightarrow> dropWhile P xs = xs"
  by (cases xs) auto

lemma dropWhile_head: "dropWhile P xs = [] \<or> \<not> P (hd (dropWhile P xs))"
  using hd_dropWhile[of P xs] by blast

lemma strip_idem: "strip (strip s) = strip s"
proof -
  define a where "a = dropWhile is_space s"
  define b where "b = dropWhile is_space (rev a)"
  have st: "strip s = rev b" by (simp add: strip_def a_def b_def)
  have ha: "a = [] \<or> \<not> is_space (hd a)" unfolding a_def by (rule dropWhile_head)
  have hb: "b = [] \<or> \<not> is_space (hd b)" unfolding b_def by (rule dropWhile_head)
  have "rev a = takeWhile is_space (rev a) @ b" unfolding b_def by simp
  then have "rev (rev a) = rev (takeWhile is_space (rev a) @ b)" by (rule arg_cong)
  then have a_eq: "a = rev b @ rev (takeWhile is_space (rev a))" by simp
  have "rev b = [] \<or> \<not> is_space (hd (rev b))"
  proof (cases "rev b = []")
    case True
    then show ?thesis by simp
  next
    case False
    then have "hd a = hd (rev b)" using a_eq by (metis hd_append2)
    moreover have "a \<noteq> []" using a_eq False by auto
    ultimately show ?thesis using ha by simp
  qed
  then have 1: "dropWhile is_space (rev b) = rev b" by (rule dropWhile_fixed)
  have 2: "dropWhile is_space b = b" using hb by (rule dropWhile_fixed)
  show ?thesis unfolding st by (simp add: strip_def 1 2)
qed

lemma clip_inline_stripped: "clip_inline n = Inr (Some s) \<Longrightarrow> strip s = s"
  by (auto simp: clip_inline_def Let_def strip_idem split: if_splits sum.splits wval.splits)

lemma widget_string_stripped: "widget_string n = Some s \<Longrightarrow> strip s = s \<and> s \<noteq> []"
proof -
  assume a: "widget_string n = Some s"
  then obtain wv x xs where f: "filter (\<lambda>s. strip s \<noteq> []) (flatten_strings wv) = x # xs"
    and s: "s = strip (max_from length x xs)"
    by (auto simp: widget_string_def split: option.splits if_splits list.splits)
  have "max_from length x xs \<in> set (x # xs)"
  proof (induction xs arbitrary: x)
    case Nil show ?case by simp
  next
    case (Cons y ys)
    show ?case using Cons[of "if length x < length y then y else x"] by (auto split: if_splits)
  qed
  then have "max_from length x xs \<in> set (filter (\<lambda>s. strip s \<noteq> []) (flatten_strings wv))"
    using f by simp
  then have "strip (max_from length x xs) \<noteq> []" by simp
  with s show ?thesis by (simp add: strip_idem)
qed

lemma helper_follow_stripped:
  "helper fuel w lm v n = Some (Inr (Some s), v') \<Longrightarrow> strip s = s"
  "follow fuel w lm sel v inps = Some (Inr (Some s), v') \<Longrightarrow> strip s = s"
proof (induction fuel w lm v n and fuel w lm sel v inps arbitrary: s v' and s v'
    rule: helper_follow.induct)
  case (1 w lm visited n)
  then show ?case by simp
next
  case (2 fuel w lm visited n)
  then show ?case
    by (auto split: if_splits sum.splits option.splits prod.splits
        dest: clip_inline_stripped widget_string_stripped)
next
  case (3 fuel w lm sel visited)
  then show ?case by simp
next
  case (4 fuel w lm sel visited inp rest)
  then show ?case
    by (auto split: if_splits sum.splits option.splits prod.splits)
qed

lemma helper_follow_visited:
  "helper fuel w lm v n = Some (r, v') \<Longrightarrow> set v \<subseteq> set v' \<and> (distinct v \<longrightarrow> distinct v')"
  "follow fuel w lm sel v inps = Some (r, v') \<Longrightarrow> set v \<subseteq> set v' \<and> (distinct v \<longrightarrow> distinct v')"
proof (induction fuel w lm v n and fuel w lm sel v inps arbitrary: r v' and r v'
    rule: helper_follow.induct)
  case (1 w lm visited n)
  then show ?case by simp
next
  case (2 fuel w lm visited n)
  then show ?case
    by (fastforce split: if_splits sum.splits option.splits prod.splits)
next
  case (3 fuel w lm sel visited)
  then show ?case by simp
next
  case (4 fuel w lm sel visited inp rest)
  then show ?case
    by (fastforce split: if_splits sum.splits option.splits prod.splits)
qed

subsection \<open>The resolver's recursion is bounded by the number of node ids\<close>

lemma card_unvisited_mono:
  "set v \<subseteq> set v' \<Longrightarrow>
   card (node_id ` set (wf_nodes w) - set v') \<le> card (node_id ` set (wf_nodes w) - set v)"
  by (intro card_mono) auto

lemma card_unvisited_less:
  assumes "n \<in> set (wf_nodes w)" "node_id n \<notin> set v"
  shows "card (node_id ` set (wf_nodes w) - set (v @ [node_id n]))
           < card (node_id ` set (wf_nodes w) - set v)"
proof (rule psubset_card_mono)
  show "finite (node_id ` set (wf_nodes w) - set v)" by simp
  have "node_id n \<in> node_id ` set (wf_nodes w) - set v" using assms by simp
  moreover have "node_id n \<notin> node_id ` set (wf_nodes w) - set (v @ [node_id n])" by simp
  moreover have "node_id ` set (wf_nodes w) - set (v @ [node_id n])
                  \<subseteq> node_id ` set (wf_nodes w) - set v" by auto
  ultimately show "node_id ` set (wf_nodes w) - set (v @ [node_id n])
                  \<subset> node_id ` set (wf_nodes w) - set v" by blast
qed

lemma follow_total_step:
  assumes H: "\<And>v n. n \<in> set (wf_nodes w) \<Longrightarrow>
                card (node_id ` set (wf_nodes w) - set v) < fuel \<Longrightarrow>
                \<exists>r v'. helper fuel w lm v n = Some (r, v')"
  shows "card (node_id ` set (wf_nodes w) - set v) < fuel \<Longrightarrow>
         \<exists>r v'. follow fuel w lm sel v inps = Some (r, v')"
proof (induction inps arbitrary: v)
  case Nil
  show ?case by simp
next
  case (Cons inp rest)
  from Cons.IH[OF Cons.prems] obtain r0 v0 where
    skip: "follow fuel w lm sel v rest = Some (r0, v0)" by blast
  show ?case
  proof (cases "sel inp")
    case False
    with skip show ?thesis by simp
  next
    case True
    show ?thesis
    proof (cases "slot_link inp")
      case None
      with True skip show ?thesis by simp
    next
      case (Some k)
      show ?thesis
      proof (cases "link_source w lm k")
        case (Inl e)
        with True Some show ?thesis by simp
      next
        case (Inr pred)
        show ?thesis
        proof (cases pred)
          case None
          with True Some Inr skip show ?thesis by simp
        next
          case (Some p)
          with Inr have "p \<in> set (wf_nodes w)" by (auto dest: link_source_in)
          from H[OF this Cons.prems] obtain r1 v1 where
            h: "helper fuel w lm v p = Some (r1, v1)" by blast
          from helper_follow_visited(1)[OF h] have "set v \<subseteq> set v1" by simp
          from card_unvisited_mono[OF this, of w] Cons.prems
          have "card (node_id ` set (wf_nodes w) - set v1) < fuel" by simp
          from Cons.IH[OF this] obtain r2 v2 where
            f: "follow fuel w lm sel v1 rest = Some (r2, v2)" by blast
          show ?thesis
          proof (cases r1)
            case (Inl e)
            with True \<open>slot_link inp = Some k\<close> Inr Some h show ?thesis by simp
          next
            case (Inr res)
            with True \<open>slot_link inp = Some k\<close> \<open>link_source w lm k = Inr pred\<close> Some h f
            show ?thesis by simp
          qed
        qed
      qed
    qed
  qed
qed

lemma helper_Suc_from_follow:
  assumes F: "\<And>sel v'. card (node_id ` set (wf_nodes w) - set v') < fuel \<Longrightarrow>
                \<exists>r v''. follow fuel w lm sel v' (get_inputs n) = Some (r, v'')"
    and c: "node_id n \<in> set v \<or> card (node_id ` set (wf_nodes w) - set (v @ [node_id n])) < fuel"
  shows "\<exists>r v'. helper (Suc fuel) w lm v n = Some (r, v')"
proof (cases "node_id n \<in> set v")
  case True
  then show ?thesis by simp
next
  case False
  with c have c1: "card (node_id ` set (wf_nodes w) - set (v @ [node_id n])) < fuel" by simp
  show ?thesis
  proof (cases "clip_inline n")
    case (Inl e)
    with False show ?thesis by simp
  next
    case (Inr x)
    show ?thesis
    proof (cases x)
      case (Some s)
      with False Inr show ?thesis by simp
    next
      case None
      show ?thesis
      proof (cases "widget_string n")
        case (Some s)
        with False Inr None show ?thesis by simp
      next
        case wn: None
        from F[OF c1] obtain r1 v2 where
          f1: "follow fuel w lm named_text (v @ [node_id n]) (get_inputs n) = Some (r1, v2)"
          by blast
        from helper_follow_visited(2)[OF f1] have "set (v @ [node_id n]) \<subseteq> set v2" by simp
        from card_unvisited_mono[OF this, of w] c1
        have "card (node_id ` set (wf_nodes w) - set v2) < fuel" by simp
        from F[OF this] obtain r2 v3 where
          f2: "follow fuel w lm typed_string v2 (get_inputs n) = Some (r2, v3)" by blast
        show ?thesis
        proof (cases r1)
          case (Inl e)
          with False Inr None wn f1 show ?thesis by simp
        next
          case r: (Inr res)
          with False Inr None wn f1 f2 show ?thesis by simp
        qed
      qed
    qed
  qed
qed

lemma helper_total_in:
  "n \<in> set (wf_nodes w) \<Longrightarrow> card (node_id ` set (wf_nodes w) - set v) < fuel \<Longrightarrow>
   \<exists>r v'. helper fuel w lm v n = Some (r, v')"
proof (induction fuel arbitrary: v n)
  case 0
  then show ?case by simp
next
  case (Suc fuel)
  show ?case
  proof (rule helper_Suc_from_follow)
    fix sel v'
    assume "card (node_id ` set (wf_nodes w) - set v') < fuel"
    then show "\<exists>r v''. follow fuel w lm sel v' (get_inputs n) = Some (r, v'')"
      using follow_total_step[where w = w and fuel = fuel and lm = lm and v = v'] Suc.IH
      by blast
  next
    show "node_id n \<in> set v \<or> card (node_id ` set (wf_nodes w) - set (v @ [node_id n])) < fuel"
    proof (cases "node_id n \<in> set v")
      case True
      then show ?thesis by simp
    next
      case False
      from card_unvisited_less[OF Suc.prems(1) False] Suc.prems(2) show ?thesis by simp
    qed
  qed
qed

lemma helper_total:
  assumes "card (node_id ` set (wf_nodes w) - set v) < fuel"
  shows "\<exists>r v'. helper (Suc fuel) w lm v n = Some (r, v')"
proof (rule helper_Suc_from_follow)
  fix sel v'
  assume "card (node_id ` set (wf_nodes w) - set v') < fuel"
  then show "\<exists>r v''. follow fuel w lm sel v' (get_inputs n) = Some (r, v'')"
    using follow_total_step[where w = w and fuel = fuel and lm = lm and v = v'] helper_total_in
    by blast
next
  have "set v \<subseteq> set (v @ [node_id n])" by auto
  from card_unvisited_mono[OF this, of w] assms
  show "node_id n \<in> set v \<or> card (node_id ` set (wf_nodes w) - set (v @ [node_id n])) < fuel"
    by simp
qed

lemma resolver_fuel_enough:
  "\<exists>r v'. helper (resolver_fuel w) w lm [] n = Some (r, v')"
proof -
  have "card (node_id ` set (wf_nodes w)) \<le> length (wf_nodes w)"
    by (metis card_image_le card_length le_trans List.finite_set)
  then have "card (node_id ` set (wf_nodes w) - set []) < Suc (length (wf_nodes w))" by simp
  from helper_total[OF this] show ?thesis by (simp add: resolver_fuel_def)
qed

subsection \<open>The resolver's rules\<close>

lemma extract_unfold:
  "extract_string_value_recursive w n =
     map_option fst (helper (Suc (Suc (length (wf_nodes w)))) w (build_link_map w) [] n)"
  by (simp add: extract_string_value_recursive_def resolver_fuel_def)

lemma find_conj:
  "find P xs = Some i \<Longrightarrow> Q i \<Longrightarrow> find (\<lambda>x. P x \<and> Q x) xs = Some i"
  by (induction xs) (auto split: if_splits)

lemma follow_first_raises:
  "find (\<lambda>i. sel i \<and> slot_link i \<noteq> None) inps = Some i \<Longrightarrow> slot_link i = Some k \<Longrightarrow>
   link_source w lm k = Inl e \<Longrightarrow> follow fuel w lm sel v inps = Some (Inl e, v)"
proof (induction inps)
  case Nil
  then show ?case by simp
next
  case (Cons inp rest)
  show ?case
  proof (cases "sel inp \<and> slot_link inp \<noteq> None")
    case True
    with Cons.prems(1) have "inp = i" by simp
    with True Cons.prems(2,3) show ?thesis by simp
  next
    case False
    with Cons.prems(1) have "find (\<lambda>i. sel i \<and> slot_link i \<noteq> None) rest = Some i"
      by (auto split: if_splits)
    from Cons.IH[OF this Cons.prems(2,3)] False show ?thesis by (cases "slot_link inp") auto
  qed
qed

lemma follow_none_selected:
  "find (\<lambda>i. sel i \<and> slot_link i \<noteq> None) inps = None \<Longrightarrow>
   follow fuel w lm sel v inps = Some (Inr None, v)"
proof (induction inps)
  case Nil
  show ?case by simp
next
  case (Cons inp rest)
  then show ?case by (cases "slot_link inp") (auto split: if_splits)
qed

lemma link_source_absent: "lm k = None \<Longrightarrow> link_source w lm k = Inl (KeyError k)"
  by (simp add: link_source_def)

lemma strip_Nil: "strip [] = []"
  by (simp add: strip_def)

lemma nonblank_truthy:
  assumes "filter (\<lambda>s. strip s \<noteq> []) (flatten_strings wv) \<noteq> []"
  shows "truthy_wval wv"
proof (cases wv)
  case (WStr s)
  with assms show ?thesis by (auto simp: strip_Nil split: if_splits)
next
  case (WList xs)
  with assms show ?thesis by (cases xs) auto
qed (use assms in auto)

subsection \<open>The three traversals return\<close>

lemma bfs_upstream_returns: "\<exists>r. bfs_upstream_to_positive_source w start = Some r"
proof -
  from bfs_loop_total obtain r s where "positive_loop w [start] [] = Some (r, s)"
    unfolding positive_loop_def by blast
  then show ?thesis by (simp add: bfs_upstream_to_positive_source_def)
qed

lemma find_upstream_returns: "\<exists>r. find_upstream_clip_encode w start = Some r"
proof -
  from bfs_loop_total obtain r s where "clip_loop w [start] [] = Some (r, s)"
    unfolding clip_loop_def by blast
  then show ?thesis by (simp add: find_upstream_clip_encode_def)
qed

lemma extract_returns: "\<exists>r. extract_string_value_recursive w n = Some r"
proof -
  from resolver_fuel_enough obtain r v where
    "helper (resolver_fuel w) w (build_link_map w) [] n = Some (r, v)" by blast
  then show ?thesis by (simp add: extract_string_value_recursive_def)
qed

lemma extract_stripped:
  assumes "extract_string_value_recursive w n = Some (Inr (Some s))"
  shows "strip s = s"
proof -
  from assms obtain v where
    "helper (resolver_fuel w) w (build_link_map w) [] n = Some (Inr (Some s), v)"
    by (auto simp: extract_string_value_recursive_def)
  then show ?thesis by (rule helper_follow_stripped(1))
qed

subsection \<open>The shape of the entry point's result\<close>

lemma entry_point_shape:
  "\<exists>p r. extract_final_positive_prompt_from_png doc = Some (p, r)
     \<and> ((p = None) \<noteq> (r = None))
     \<and> (\<forall>s. p = Some s \<longrightarrow> s \<noteq> [] \<and> strip s = s)"
proof (cases doc)
  case Undecodable
  then show ?thesis by (simp add: extract_final_positive_prompt_from_png_def)
next
  case WithoutWorkflow
  then show ?thesis by (simp add: extract_final_positive_prompt_from_png_def)
next
  case (WithWorkflow w)
  note d = WithWorkflow
  show ?thesis
  proof (cases "find_highest_order_saveimage w")
    case None
    with d show ?thesis by (simp add: extract_final_positive_prompt_from_png_def)
  next
    case (Some save)
    note sv = Some
    show ?thesis
    proof (cases "truthy_scalar (find_input_link_id save ''images'')")
      case False
      with d sv show ?thesis by (simp add: extract_final_positive_prompt_from_png_def)
    next
      case True
      note tr = True
      show ?thesis
      proof (cases "link_source w (build_link_map w) (find_input_link_id save ''images'')")
        case (Inl e)
        with d sv tr show ?thesis by (simp add: extract_final_positive_prompt_from_png_def)
      next
        case (Inr st)
        note ls = Inr
        show ?thesis
        proof (cases st)
          case None
          with d sv tr ls show ?thesis by (simp add: extract_final_positive_prompt_from_png_def)
        next
          case (Some start_node)
          note st = Some
          from bfs_upstream_returns obtain r1 where
            b: "bfs_upstream_to_positive_source w start_node = Some r1" by blast
          show ?thesis
          proof (cases r1)
            case (Inl e)
            with d sv tr ls st b show ?thesis
              by (simp add: extract_final_positive_prompt_from_png_def)
          next
            case (Inr ps)
            note r1 = Inr
            show ?thesis
            proof (cases ps)
              case None
              with d sv tr ls st b r1 show ?thesis
                by (simp add: extract_final_positive_prompt_from_png_def)
            next
              case (Some pos_src)
              note ps = Some
              from find_upstream_returns obtain r2 where
                c: "find_upstream_clip_encode w pos_src = Some r2" by blast
              show ?thesis
              proof (cases r2)
                case (Inl e)
                with d sv tr ls st b r1 ps c show ?thesis
                  by (simp add: extract_final_positive_prompt_from_png_def)
              next
                case (Inr cl)
                note r2 = Inr
                show ?thesis
                proof (cases cl)
                  case None
                  with d sv tr ls st b r1 ps c r2 show ?thesis
                    by (simp add: extract_final_positive_prompt_from_png_def)
                next
                  case (Some clip_node)
                  note cl = Some
                  from extract_returns obtain r3 where
                    x: "extract_string_value_recursive w clip_node = Some r3" by blast
                  show ?thesis
                  proof (cases r3)
                    case (Inl e)
                    with d sv tr ls st b r1 ps c r2 cl x show ?thesis
                      by (simp add: extract_final_positive_prompt_from_png_def)
                  next
                    case (Inr prompt)
                    note r3 = Inr
                    show ?thesis
                    proof (cases "truthy_str prompt")
                      case False
                      with d sv tr ls st b r1 ps c r2 cl x r3 show ?thesis
                        by (simp add: extract_final_positive_prompt_from_png_def)
                    next
                      case True
                      then obtain s where s: "prompt = Some s" "s \<noteq> []"
                        by (cases prompt) auto
                      from x r3 s have "strip s = s" by (auto dest: extract_stripped)
                      with d sv tr ls st b r1 ps c r2 cl x r3 s show ?thesis
                        by (simp add: extract_final_positive_prompt_from_png_def)
                    qed
                  qed
                qed
              qed
            qed
          qed
        qed
      qed
    qed
  qed
qed

subsection \<open>One iteration of the search loop\<close>

lemma bfs_loop_Nil: "bfs_loop stop sel w lm [] seen = Some (Inr None, seen)"
  by (subst bfs_loop.simps) simp

lemma bfs_loop_seen:
  "node_id n \<in> set seen \<Longrightarrow> bfs_loop stop sel w lm (n # rest) seen = bfs_loop stop sel w lm rest seen"
  by (subst bfs_loop.simps) simp

lemma bfs_loop_stop:
  "node_id n \<notin> set seen \<Longrightarrow> stop n = Some r \<Longrightarrow>
   bfs_loop stop sel w lm (n # rest) seen = Some (r, seen @ [node_id n])"
  by (subst bfs_loop.simps) simp

lemma bfs_loop_expand:
  "node_id n \<notin> set seen \<Longrightarrow> stop n = None \<Longrightarrow>
   bfs_loop stop sel w lm (n # rest) seen =
     (case enqueue_preds w lm sel (get_inputs n) of
        Inl e \<Rightarrow> Some (Inl e, seen @ [node_id n])
      | Inr ps \<Rightarrow> bfs_loop stop sel w lm (rest @ ps) (seen @ [node_id n]))"
  by (subst bfs_loop.simps) simp

lemma enqueue_preds_filter:
  "enqueue_preds w lm sel inps = enqueue_preds w lm (\<lambda>i. True) (filter sel inps)"
proof (induction inps)
  case Nil
  show ?case by simp
next
  case (Cons inp rest)
  then show ?case by (cases "slot_link inp") (auto split: sum.splits)
qed

lemma positive_source_find:
  "positive_source w lm inps =
     (case find (\<lambda>i. slot_name i = Some ''positive'' \<and> slot_link i \<noteq> None) inps of
        None \<Rightarrow> None
      | Some inp \<Rightarrow> map_option (link_source w lm) (slot_link inp))"
proof (induction inps)
  case Nil
  show ?case by simp
next
  case (Cons inp rest)
  then show ?case by (cases "slot_link inp") auto
qed

lemma positive_source_in:
  assumes "positive_source w lm inps = Some r"
  shows "\<exists>inp k. inp \<in> set inps \<and> slot_name inp = Some ''positive'' \<and> slot_link inp = Some k
           \<and> r = link_source w lm k"
proof -
  from assms obtain inp where
    f: "find (\<lambda>i. slot_name i = Some ''positive'' \<and> slot_link i \<noteq> None) inps = Some inp"
    and r: "map_option (link_source w lm) (slot_link inp) = Some r"
    by (auto simp: positive_source_find split: option.splits)
  from f have "inp \<in> set inps" "slot_name inp = Some ''positive''"
    by (auto simp: find_Some_iff)
  with r show ?thesis by auto
qed

text \<open>A node that is returned was produced by the stop test of a node of the queue or of the workflow.\<close>

lemma bfs_loop_result:
  "bfs_loop stop sel w lm q seen = Some (Inr (Some c), s) \<Longrightarrow>
   \<exists>n. (n \<in> set q \<or> n \<in> set (wf_nodes w)) \<and> stop n = Some (Inr (Some c))"
proof (induction q seen rule: bfs_induct[where w = w])
  case (Empty seen)
  then show ?case by (simp add: bfs_loop_Nil)
next
  case (Seen n rest seen)
  then show ?case by (auto simp: bfs_loop_seen)
next
  case (Fresh n rest seen)
  show ?case
  proof (cases "stop n")
    case (Some r)
    with Fresh(1,3) have "r = Inr (Some c)" by (simp add: bfs_loop_stop)
    with Some show ?thesis by auto
  next
    case None
    show ?thesis
    proof (cases "enqueue_preds w lm sel (get_inputs n)")
      case (Inl e)
      with None Fresh(1,3) show ?thesis by (simp add: bfs_loop_expand)
    next
      case (Inr ps)
      with None Fresh(1,3) have "bfs_loop stop sel w lm (rest @ ps) (seen @ [node_id n]) = Some (Inr (Some c), s)"
        by (simp add: bfs_loop_expand)
      from Fresh(2)[OF enqueue_preds_subset[OF Inr] this] enqueue_preds_subset[OF Inr]
      show ?thesis by auto
    qed
  qed
qed

subsection \<open>Where the traversals raise, and where they cannot\<close>

lemma enqueue_preds_raises:
  "find (\<lambda>i. sel i \<and> (\<exists>k. slot_link i = Some k \<and> lm k = None)) inps = Some i \<Longrightarrow>
   slot_link i = Some k \<Longrightarrow> enqueue_preds w lm sel inps = Inl (KeyError k)"
proof (induction inps)
  case Nil
  then show ?case by simp
next
  case (Cons inp rest)
  show ?case
  proof (cases "sel inp \<and> (\<exists>k. slot_link inp = Some k \<and> lm k = None)")
    case True
    with Cons.prems(1) have "inp = i" by simp
    with True Cons.prems(2) show ?thesis by (auto simp: link_source_absent)
  next
    case False
    with Cons.prems(1) have
      "find (\<lambda>i. sel i \<and> (\<exists>k. slot_link i = Some k \<and> lm k = None)) rest = Some i"
      by (auto split: if_splits)
    from Cons.IH[OF this Cons.prems(2)] have r: "enqueue_preds w lm sel rest = Inl (KeyError k)" .
    show ?thesis
    proof (cases "slot_link inp")
      case None
      with r show ?thesis by simp
    next
      case (Some j)
      show ?thesis
      proof (cases "sel inp")
        case False
        with Some r show ?thesis by simp
      next
        case True
        with False Some obtain t where "lm j = Some t" by auto
        then obtain pred where "link_source w lm j = Inr pred"
          by (cases t) (simp add: link_source_def)
        with True Some r show ?thesis by simp
      qed
    qed
  qed
qed

subsection \<open>More fuel does not change a result\<close>

lemma follow_fuel_step:
  assumes H: "\<And>v p y. helper fuel w lm v p = Some y \<Longrightarrow> helper (Suc fuel) w lm v p = Some y"
  shows "follow fuel w lm sel v inps = Some x \<Longrightarrow> follow (Suc fuel) w lm sel v inps = Some x"
proof (induction inps arbitrary: v)
  case Nil
  then show ?case by simp
next
  case (Cons inp rest)
  show ?case
  proof (cases "sel inp")
    case False
    with Cons.prems have "follow fuel w lm sel v rest = Some x" by simp
    from Cons.IH[OF this] False show ?thesis by simp
  next
    case True
    show ?thesis
    proof (cases "slot_link inp")
      case None
      with True Cons.prems have "follow fuel w lm sel v rest = Some x" by simp
      from Cons.IH[OF this] True None show ?thesis by simp
    next
      case (Some k)
      show ?thesis
      proof (cases "link_source w lm k")
        case (Inl e)
        with True Some Cons.prems show ?thesis by simp
      next
        case (Inr pred)
        show ?thesis
        proof (cases pred)
          case None
          with True Some Inr Cons.prems have "follow fuel w lm sel v rest = Some x" by simp
          from Cons.IH[OF this] True Some Inr None show ?thesis by simp
        next
          case p: (Some p)
          show ?thesis
          proof (cases "helper fuel w lm v p")
            case None
            with True Some Inr p Cons.prems show ?thesis by simp
          next
            case h: (Some rv)
            from H[OF h] have h': "helper (Suc fuel) w lm v p = Some rv" .
            obtain r1 v1 where rv: "rv = (r1, v1)" by (cases rv)
            show ?thesis
            proof (cases r1)
              case e: (Inl e)
              from True Some Inr p h rv e Cons.prems have "x = (Inl e, v1)" by simp
              moreover from True Some Inr p h' rv e
              have "follow (Suc fuel) w lm sel v (inp # rest) = Some (Inl e, v1)"
                by (simp del: helper.simps)
              ultimately show ?thesis by simp
            next
              case r: (Inr res)
              show ?thesis
              proof (cases "truthy_str res")
                case t: True
                from True Some Inr p h rv r t Cons.prems have "x = (Inr res, v1)" by simp
                moreover from True Some Inr p h' rv r t
                have "follow (Suc fuel) w lm sel v (inp # rest) = Some (Inr res, v1)"
                  by (simp del: helper.simps)
                ultimately show ?thesis by simp
              next
                case f: False
                from True Some Inr p h rv r f Cons.prems
                have "follow fuel w lm sel v1 rest = Some x" by simp
                from Cons.IH[OF this] have "follow (Suc fuel) w lm sel v1 rest = Some x" .
                with True Some Inr p h' rv r f show ?thesis by (simp del: helper.simps)
              qed
            qed
          qed
        qed
      qed
    qed
  qed
qed

lemma helper_fuel_Suc:
  "helper fuel w lm v n = Some x \<Longrightarrow> helper (Suc fuel) w lm v n = Some x"
proof (induction fuel arbitrary: v n x)
  case 0
  then show ?case by simp
next
  case (Suc fuel)
  have F: "follow (Suc fuel) w lm sel v' inps = Some y"
    if "follow fuel w lm sel v' inps = Some y" for sel v' inps y
    using follow_fuel_step[where fuel = fuel and w = w and lm = lm] Suc.IH that by blast
  show ?case
  proof (cases "node_id n \<in> set v")
    case True
    with Suc.prems show ?thesis by simp
  next
    case False
    show ?thesis
    proof (cases "clip_inline n")
      case (Inl e)
      with False Suc.prems show ?thesis by simp
    next
      case (Inr c)
      show ?thesis
      proof (cases c)
        case (Some s)
        with False Inr Suc.prems show ?thesis by simp
      next
        case None
        show ?thesis
        proof (cases "widget_string n")
          case (Some s)
          with False Inr None Suc.prems show ?thesis by simp
        next
          case wn: None
          show ?thesis
          proof (cases "follow fuel w lm named_text (v @ [node_id n]) (get_inputs n)")
            case fn: None
            with False Inr None wn Suc.prems show ?thesis by simp
          next
            case f1: (Some rv)
            from F[OF f1]
            have f1': "follow (Suc fuel) w lm named_text (v @ [node_id n]) (get_inputs n) = Some rv" .
            obtain r1 v1 where rv: "rv = (r1, v1)" by (cases rv)
            have u: "helper (Suc (Suc fuel)) w lm v n =
                (case r1 of Inl e \<Rightarrow> Some (Inl e, v1)
                 | Inr r \<Rightarrow> if truthy_str r then Some (Inr r, v1)
                     else follow (Suc fuel) w lm typed_string v1 (get_inputs n))"
              using False Inr None wn f1' rv by (simp del: follow.simps)
            have u0: "helper (Suc fuel) w lm v n =
                (case r1 of Inl e \<Rightarrow> Some (Inl e, v1)
                 | Inr r \<Rightarrow> if truthy_str r then Some (Inr r, v1)
                     else follow fuel w lm typed_string v1 (get_inputs n))"
              using False Inr None wn f1 rv by (simp del: follow.simps)
            show ?thesis
            proof (cases r1)
              case e: (Inl e)
              with u u0 Suc.prems show ?thesis by simp
            next
              case r: (Inr res)
              show ?thesis
              proof (cases "truthy_str res")
                case True
                with r u u0 Suc.prems show ?thesis by simp
              next
                case False
                with r u0 Suc.prems have "follow fuel w lm typed_string v1 (get_inputs n) = Some x"
                  by simp
                from F[OF this] r False u show ?thesis by simp
              qed
            qed
          qed
        qed
      qed
    qed
  qed
qed

lemma helper_fuel_add:
  "helper fuel w lm v n = Some x \<Longrightarrow> helper (fuel + k) w lm v n = Some x"
proof (induction k)
  case 0
  then show ?case by simp
next
  case (Suc k)
  then have "helper (Suc (fuel + k)) w lm v n = Some x" by (intro helper_fuel_Suc) simp
  then show ?case by simp
qed

subsection \<open>The loop answers at the first node of the breadth-first order that has an answer\<close>

lemma spec_preds_subset: "set (spec_preds w lm sel inps) \<subseteq> set (wf_nodes w)"
proof (induction inps)
  case Nil
  show ?case by simp
next
  case (Cons inp rest)
  show ?case
  proof (cases "slot_link inp")
    case None
    with Cons show ?thesis by simp
  next
    case (Some k)
    show ?thesis
    proof (cases "sel inp")
      case False
      with Some Cons show ?thesis by simp
    next
      case True
      show ?thesis
      proof (cases "lm k")
        case None
        with True Some Cons show ?thesis by simp
      next
        case t: (Some t)
        obtain src a b c d where t': "t = (src, a, b, c, d)" by (cases t)
        show ?thesis
        proof (cases "get_node_by_id w src")
          case None
          with True Some t t' Cons show ?thesis by simp
        next
          case p: (Some p)
          then have "p \<in> set (wf_nodes w)" by (rule get_node_by_id_in)
          with True Some t t' p Cons show ?thesis by simp
        qed
      qed
    qed
  qed
qed

lemma enqueue_preds_spec:
  "enqueue_preds w lm sel inps = Inr ps \<Longrightarrow> ps = spec_preds w lm sel inps"
proof (induction inps arbitrary: ps)
  case Nil
  then show ?case by simp
next
  case (Cons inp rest)
  show ?case
  proof (cases "slot_link inp")
    case None
    with Cons show ?thesis by simp
  next
    case (Some k)
    show ?thesis
    proof (cases "sel inp")
      case False
      with Some Cons show ?thesis by simp
    next
      case True
      from Cons.prems Some True obtain pred ps' where
        src: "link_source w lm k = Inr pred" and
        rest: "enqueue_preds w lm sel rest = Inr ps'" and
        ps: "ps = (case pred of None \<Rightarrow> ps' | Some p \<Rightarrow> p # ps')"
        by (auto split: sum.splits option.splits)
      from Cons.IH[OF rest] have ps': "ps' = spec_preds w lm sel rest" .
      from src obtain src_id a b c d where
        lk: "lm k = Some (src_id, a, b, c, d)" and pr: "pred = get_node_by_id w src_id"
        by (auto simp: link_source_def split: option.splits)
      from Some True lk pr ps ps' show ?thesis by (cases "get_node_by_id w src_id") simp_all
    qed
  qed
qed

lemma enqueue_preds_Inl:
  "enqueue_preds w lm sel inps = Inl e \<Longrightarrow>
   \<exists>inp k. inp \<in> set inps \<and> sel inp \<and> slot_link inp = Some k \<and> lm k = None \<and> e = KeyError k"
proof (induction inps)
  case Nil
  then show ?case by simp
next
  case (Cons inp rest)
  show ?case
  proof (cases "slot_link inp")
    case None
    with Cons.prems have "enqueue_preds w lm sel rest = Inl e" by simp
    from Cons.IH[OF this] show ?thesis by auto
  next
    case (Some k)
    show ?thesis
    proof (cases "sel inp")
      case False
      with Some Cons.prems have "enqueue_preds w lm sel rest = Inl e" by simp
      from Cons.IH[OF this] show ?thesis by auto
    next
      case True
      show ?thesis
      proof (cases "link_source w lm k")
        case (Inl e')
        with True Some Cons.prems have "e = e'" by simp
        with Inl have "lm k = None \<and> e = KeyError k"
          by (auto simp: link_source_def split: option.splits)
        with True Some show ?thesis by auto
      next
        case (Inr pred)
        with True Some Cons.prems have "enqueue_preds w lm sel rest = Inl e"
          by (auto split: sum.splits option.splits)
        from Cons.IH[OF this] show ?thesis by auto
      qed
    qed
  qed
qed

lemma resolves_enqueue:
  assumes "resolves lm sel n"
  shows "\<exists>ps. enqueue_preds w lm sel (get_inputs n) = Inr ps"
proof (cases "enqueue_preds w lm sel (get_inputs n)")
  case (Inl e)
  from enqueue_preds_Inl[OF this] assms show ?thesis by (auto simp: resolves_def)
next
  case (Inr ps)
  then show ?thesis by blast
qed

lemma spec_bfs_order_Nil: "spec_bfs_order sel w lm [] seen = Some []"
  by (subst spec_bfs_order.simps) simp

lemma spec_bfs_order_seen:
  "node_id n \<in> set seen \<Longrightarrow>
   spec_bfs_order sel w lm (n # rest) seen = spec_bfs_order sel w lm rest seen"
  by (subst spec_bfs_order.simps) simp

lemma spec_bfs_order_fresh:
  "node_id n \<notin> set seen \<Longrightarrow>
   spec_bfs_order sel w lm (n # rest) seen =
     Option.bind
       (spec_bfs_order sel w lm (rest @ spec_preds w lm sel (get_inputs n)) (seen @ [node_id n]))
       (\<lambda>ord. Some (n # ord))"
  by (subst spec_bfs_order.simps) simp

lemma bfs_loop_order:
  "\<exists>ord s. spec_bfs_order sel w lm q seen = Some ord
     \<and> bfs_loop stop sel w lm q seen = Some (first_outcome stop sel w lm ord, s)"
proof (induction q seen rule: bfs_induct[where w = w])
  case (Empty seen)
  show ?case by (simp add: spec_bfs_order_Nil bfs_loop_Nil)
next
  case (Seen n rest seen)
  then show ?case by (simp add: spec_bfs_order_seen bfs_loop_seen)
next
  case (Fresh n rest seen)
  let ?sp = "spec_preds w lm sel (get_inputs n)"
  from Fresh(2)[OF spec_preds_subset] obtain ord s where
    o: "spec_bfs_order sel w lm (rest @ ?sp) (seen @ [node_id n]) = Some ord"
    and l: "bfs_loop stop sel w lm (rest @ ?sp) (seen @ [node_id n])
              = Some (first_outcome stop sel w lm ord, s)" by blast
  from o Fresh(1) have o': "spec_bfs_order sel w lm (n # rest) seen = Some (n # ord)"
    by (simp add: spec_bfs_order_fresh)
  show ?case
  proof (cases "stop n")
    case (Some r)
    from bfs_loop_stop[where stop = stop, OF Fresh(1) Some]
    have "bfs_loop stop sel w lm (n # rest) seen = Some (r, seen @ [node_id n])" .
    moreover from Some have "first_outcome stop sel w lm (n # ord) = r" by simp
    ultimately show ?thesis using o' by simp
  next
    case None
    show ?thesis
    proof (cases "enqueue_preds w lm sel (get_inputs n)")
      case (Inl e)
      with bfs_loop_expand[where stop = stop, OF Fresh(1) None]
      have "bfs_loop stop sel w lm (n # rest) seen = Some (Inl e, seen @ [node_id n])" by simp
      moreover from None Inl have "first_outcome stop sel w lm (n # ord) = Inl e" by simp
      ultimately show ?thesis using o' by simp
    next
      case (Inr ps)
      from enqueue_preds_spec[OF Inr] have ps: "ps = ?sp" .
      from bfs_loop_expand[where stop = stop, OF Fresh(1) None] Inr ps l
      have "bfs_loop stop sel w lm (n # rest) seen = Some (first_outcome stop sel w lm ord, s)"
        by simp
      moreover from None Inr
      have "first_outcome stop sel w lm (n # ord) = first_outcome stop sel w lm ord" by simp
      ultimately show ?thesis using o' by simp
    qed
  qed
qed

lemma first_outcome_skip:
  "\<forall>m\<in>set pre. stop m = None \<and> resolves lm sel m \<Longrightarrow>
   first_outcome stop sel w lm (pre @ rest) = first_outcome stop sel w lm rest"
proof (induction pre)
  case Nil
  show ?case by simp
next
  case (Cons m pre)
  then have "stop m = None" and "resolves lm sel m" by simp_all
  from resolves_enqueue[OF this(2)] obtain ps where
    "enqueue_preds w lm sel (get_inputs m) = Inr ps" by blast
  with \<open>stop m = None\<close> Cons show ?case by simp
qed

lemma first_outcome_stop:
  assumes "\<forall>m\<in>set pre. stop m = None \<and> resolves lm sel m" and "stop c = Some r"
  shows "first_outcome stop sel w lm (pre @ c # post) = r"
  using first_outcome_skip[OF assms(1), of w "c # post"] assms(2) by simp

lemma first_outcome_none:
  assumes "\<forall>m\<in>set ord. stop m = None \<and> resolves lm sel m"
  shows "first_outcome stop sel w lm ord = Inr None"
  using first_outcome_skip[OF assms, of w "[]"] by simp

lemma first_outcome_raise:
  assumes "\<forall>m\<in>set pre. stop m = None \<and> resolves lm sel m" and "stop c = None"
    and "enqueue_preds w lm sel (get_inputs c) = Inl e"
  shows "first_outcome stop sel w lm (pre @ c # post) = Inl e"
  using first_outcome_skip[OF assms(1), of w "c # post"] assms(2,3) by simp

lemma spec_preds_filter:
  "spec_preds w lm sel inps = spec_preds w lm (\<lambda>i. True) (filter sel inps)"
proof (induction inps)
  case Nil
  show ?case by simp
next
  case (Cons inp rest)
  then show ?case by (cases "slot_link inp") (auto split: option.splits)
qed

subsection \<open>What an exception of a traversal comes from\<close>

lemma enqueue_preds_resolves:
  assumes "enqueue_preds w lm sel (get_inputs x) = Inr ps"
  shows "resolves lm sel x"
proof (rule ccontr)
  assume "\<not> resolves lm sel x"
  then have "\<exists>inp\<in>set (get_inputs x). sel inp \<and> (\<exists>k. slot_link inp = Some k \<and> lm k = None)"
    unfolding resolves_def by (simp only: not_all not_imp not_not ball_simps bex_simps)
  then obtain inp k where "inp \<in> set (get_inputs x)" "sel inp" "slot_link inp = Some k" "lm k = None"
    by blast
  then have "\<exists>i\<in>set (get_inputs x). sel i \<and> (\<exists>k. slot_link i = Some k \<and> lm k = None)" by blast
  then obtain i where
    f: "find (\<lambda>i. sel i \<and> (\<exists>k. slot_link i = Some k \<and> lm k = None)) (get_inputs x) = Some i"
    by (cases "find (\<lambda>i. sel i \<and> (\<exists>k. slot_link i = Some k \<and> lm k = None)) (get_inputs x)")
      (auto simp: find_None_iff)
  then obtain j where "slot_link i = Some j" by (auto simp: find_Some_iff)
  from enqueue_preds_raises[OF f this] assms show False by simp
qed

lemma first_outcome_Inl:
  "first_outcome stop sel w lm ord = Inl e \<Longrightarrow>
   \<exists>pre m post. ord = pre @ m # post
     \<and> (\<forall>x\<in>set pre. stop x = None \<and> resolves lm sel x)
     \<and> (stop m = Some (Inl e) \<or> stop m = None \<and> enqueue_preds w lm sel (get_inputs m) = Inl e)"
proof (induction ord)
  case Nil
  then show ?case by simp
next
  case (Cons a ms)
  show ?case
  proof (cases "stop a")
    case (Some r)
    with Cons.prems have "stop a = Some (Inl e)" by simp
    then have "a # ms = [] @ a # ms \<and> (\<forall>x\<in>set []. stop x = None \<and> resolves lm sel x)
       \<and> (stop a = Some (Inl e) \<or> stop a = None \<and> enqueue_preds w lm sel (get_inputs a) = Inl e)"
      by simp
    then show ?thesis by blast
  next
    case None
    show ?thesis
    proof (cases "enqueue_preds w lm sel (get_inputs a)")
      case (Inl e')
      with None Cons.prems have "enqueue_preds w lm sel (get_inputs a) = Inl e" by simp
      with None have "a # ms = [] @ a # ms \<and> (\<forall>x\<in>set []. stop x = None \<and> resolves lm sel x)
         \<and> (stop a = Some (Inl e) \<or> stop a = None \<and> enqueue_preds w lm sel (get_inputs a) = Inl e)"
        by simp
      then show ?thesis by blast
    next
      case (Inr ps)
      with None Cons.prems have "first_outcome stop sel w lm ms = Inl e" by simp
      from Cons.IH[OF this] obtain pre m post where
        o: "ms = pre @ m # post" and
        p: "\<forall>x\<in>set pre. stop x = None \<and> resolves lm sel x" and
        m: "stop m = Some (Inl e) \<or> stop m = None \<and> enqueue_preds w lm sel (get_inputs m) = Inl e"
        by blast
      from enqueue_preds_resolves[OF Inr] have ra: "resolves lm sel a" .
      from o have "a # ms = (a # pre) @ m # post" by simp
      moreover from p None ra have "\<forall>x\<in>set (a # pre). stop x = None \<and> resolves lm sel x" by simp
      ultimately show ?thesis using m by blast
    qed
  qed
qed

lemma first_outcome_resolved:
  assumes "\<forall>m\<in>set ord. resolves lm sel m" and "\<And>m e. stop m = Some (Inl e) \<Longrightarrow> \<not> resolves lm sel m"
  shows "\<exists>r. first_outcome stop sel w lm ord = Inr r"
proof (cases "first_outcome stop sel w lm ord")
  case (Inl e)
  from first_outcome_Inl[OF this] obtain pre m post where
    o: "ord = pre @ m # post" and
    m: "stop m = Some (Inl e) \<or> stop m = None \<and> enqueue_preds w lm sel (get_inputs m) = Inl e"
    by blast
  from o assms(1) have r: "resolves lm sel m" by simp
  from m show ?thesis
  proof
    assume "stop m = Some (Inl e)"
    from assms(2)[OF this] r show ?thesis by simp
  next
    assume "stop m = None \<and> enqueue_preds w lm sel (get_inputs m) = Inl e"
    then have "enqueue_preds w lm sel (get_inputs m) = Inl e" by simp
    from enqueue_preds_Inl[OF this] r show ?thesis by (auto simp: resolves_def)
  qed
next
  case (Inr r)
  then show ?thesis by simp
qed

lemma positive_source_Inl:
  assumes "positive_source w lm inps = Some (Inl e)"
  shows "\<exists>inp k. find (\<lambda>i. slot_name i = Some ''positive'' \<and> slot_link i \<noteq> None) inps = Some inp
           \<and> inp \<in> set inps \<and> slot_link inp = Some k \<and> lm k = None \<and> e = KeyError k"
proof -
  from assms obtain inp where
    f: "find (\<lambda>i. slot_name i = Some ''positive'' \<and> slot_link i \<noteq> None) inps = Some inp"
    and r: "map_option (link_source w lm) (slot_link inp) = Some (Inl e)"
    by (auto simp: positive_source_find split: option.splits)
  from r obtain k where k: "slot_link inp = Some k" and l: "link_source w lm k = Inl e" by auto
  from l have "lm k = None \<and> e = KeyError k"
    by (auto simp: link_source_def split: option.splits)
  moreover from f have "inp \<in> set inps" by (auto simp: find_Some_iff)
  ultimately show ?thesis using f k by blast
qed

lemma positive_source_None:
  "positive_source w lm inps = None \<longleftrightarrow>
   find (\<lambda>i. slot_name i = Some ''positive'' \<and> slot_link i \<noteq> None) inps = None"
proof
  assume "positive_source w lm inps = None"
  then show "find (\<lambda>i. slot_name i = Some ''positive'' \<and> slot_link i \<noteq> None) inps = None"
    by (auto simp: positive_source_find find_Some_iff split: option.splits)
next
  assume "find (\<lambda>i. slot_name i = Some ''positive'' \<and> slot_link i \<noteq> None) inps = None"
  then show "positive_source w lm inps = None" by (simp add: positive_source_find)
qed

subsection \<open>The locator returns a candidate\<close>

lemma max_from_mem: "max_from key b xs \<in> set (b # xs)"
proof (induction xs arbitrary: b)
  case Nil
  show ?case by simp
next
  case (Cons x xs)
  from Cons[of "if key b < key x then x else b"] show ?case by (auto split: if_splits)
qed

lemma locator_candidate:
  assumes "find_highest_order_saveimage w = Some s"
  shows "s \<in> set (wf_nodes w) \<and> is_saveimage s"
proof -
  from assms obtain c cs where
    f: "filter is_saveimage (wf_nodes w) = c # cs" and s: "s = max_from get_order c cs"
    by (auto simp: find_highest_order_saveimage_def Let_def split: list.splits)
  from s max_from_mem[of get_order c cs] have "s \<in> set (c # cs)" by simp
  with f have "s \<in> set (filter is_saveimage (wf_nodes w))" by simp
  then show ?thesis by simp
qed
subsection \<open>The breadth-first order holds every node upstream of the start node\<close>

lemma get_node_by_id_id: "get_node_by_id w k = Some p \<Longrightarrow> k = JInt (node_id p)"
  by (auto simp: get_node_by_id_def find_Some_iff)

lemma spec_preds_registered:
  "p \<in> set (spec_preds w lm sel inps) \<Longrightarrow> get_node_by_id w (JInt (node_id p)) = Some p"
proof (induction inps)
  case Nil
  then show ?case by simp
next
  case (Cons inp rest)
  show ?case
  proof (cases "slot_link inp")
    case None
    with Cons show ?thesis by simp
  next
    case (Some k)
    show ?thesis
    proof (cases "sel inp")
      case False
      with Some Cons show ?thesis by simp
    next
      case True
      show ?thesis
      proof (cases "lm k")
        case None
        with True Some Cons show ?thesis by simp
      next
        case t: (Some t)
        obtain src a b c d where t': "t = (src, a, b, c, d)" by (cases t)
        show ?thesis
        proof (cases "get_node_by_id w src")
          case None
          with True Some t t' Cons show ?thesis by simp
        next
          case q: (Some q)
          with True Some t t' Cons.prems have "p = q \<or> p \<in> set (spec_preds w lm sel rest)" by simp
          then show ?thesis
          proof
            assume "p = q"
            with q get_node_by_id_id[OF q] show ?thesis by simp
          next
            assume "p \<in> set (spec_preds w lm sel rest)"
            then show ?thesis by (rule Cons.IH)
          qed
        qed
      qed
    qed
  qed
qed

lemma spec_preds_mem:
  "inp \<in> set inps \<Longrightarrow> sel inp \<Longrightarrow> slot_link inp = Some k \<Longrightarrow>
   link_source w lm k = Inr (Some p) \<Longrightarrow> p \<in> set (spec_preds w lm sel inps)"
proof (induction inps)
  case Nil
  then show ?case by simp
next
  case (Cons a rest)
  from Cons.prems(4) obtain src x y z u where
    lk: "lm k = Some (src, x, y, z, u)" and g: "get_node_by_id w src = Some p"
    by (auto simp: link_source_def split: option.splits)
  show ?case
  proof (cases "a = inp")
    case True
    with Cons.prems(2,3) lk g show ?thesis by simp
  next
    case False
    with Cons.prems(1) have "inp \<in> set rest" by simp
    from Cons.IH[OF this Cons.prems(2,3,4)] have "p \<in> set (spec_preds w lm sel rest)" .
    then show ?thesis by (auto split: option.splits)
  qed
qed

lemma registered_same:
  "get_node_by_id w (JInt (node_id x)) = Some x \<Longrightarrow> get_node_by_id w (JInt (node_id n)) = Some n \<Longrightarrow>
   node_id x = node_id n \<Longrightarrow> x = n"
  by (metis option.inject)

lemma spec_bfs_order_closed:
  "\<forall>x\<in>set q. get_node_by_id w (JInt (node_id x)) = Some x \<Longrightarrow>
   \<exists>ord. spec_bfs_order sel w lm q seen = Some ord
     \<and> (\<forall>x\<in>set q. node_id x \<in> set seen \<or> x \<in> set ord)
     \<and> (\<forall>m\<in>set ord. \<forall>p\<in>set (spec_preds w lm sel (get_inputs m)).
           node_id p \<in> set seen \<or> p \<in> set ord)"
proof (induction q seen rule: bfs_induct[where w = w])
  case (Empty seen)
  show ?case by (simp add: spec_bfs_order_Nil)
next
  case (Seen n rest seen)
  from Seen(3) have "\<forall>x\<in>set rest. get_node_by_id w (JInt (node_id x)) = Some x" by simp
  from Seen(2)[OF this] obtain ord where
    o: "spec_bfs_order sel w lm rest seen = Some ord" and
    a: "\<forall>x\<in>set rest. node_id x \<in> set seen \<or> x \<in> set ord" and
    b: "\<forall>m\<in>set ord. \<forall>p\<in>set (spec_preds w lm sel (get_inputs m)).
           node_id p \<in> set seen \<or> p \<in> set ord" by blast
  from o Seen(1) have "spec_bfs_order sel w lm (n # rest) seen = Some ord"
    by (simp add: spec_bfs_order_seen)
  moreover from a Seen(1) have "\<forall>x\<in>set (n # rest). node_id x \<in> set seen \<or> x \<in> set ord"
    by simp
  ultimately show ?case using b by blast
next
  case (Fresh n rest seen)
  let ?ps = "spec_preds w lm sel (get_inputs n)"
  have reg: "get_node_by_id w (JInt (node_id x)) = Some x" if "x \<in> set (n # rest @ ?ps)" for x
  proof (cases "x \<in> set ?ps")
    case True
    then show ?thesis by (rule spec_preds_registered)
  next
    case False
    with that Fresh(3) show ?thesis by auto
  qed
  have same: "x = n" if "x \<in> set (rest @ ?ps)" "node_id x = node_id n" for x
  proof -
    from that(1) have "get_node_by_id w (JInt (node_id x)) = Some x" by (intro reg) simp
    moreover have "get_node_by_id w (JInt (node_id n)) = Some n" by (intro reg) simp
    ultimately show ?thesis using that(2) by (rule registered_same)
  qed
  have "\<forall>x\<in>set (rest @ ?ps). get_node_by_id w (JInt (node_id x)) = Some x"
    using reg by simp
  from Fresh(2)[OF spec_preds_subset this] obtain ord where
    o: "spec_bfs_order sel w lm (rest @ ?ps) (seen @ [node_id n]) = Some ord" and
    a: "\<forall>x\<in>set (rest @ ?ps). node_id x \<in> set (seen @ [node_id n]) \<or> x \<in> set ord" and
    b: "\<forall>m\<in>set ord. \<forall>p\<in>set (spec_preds w lm sel (get_inputs m)).
           node_id p \<in> set (seen @ [node_id n]) \<or> p \<in> set ord" by blast
  from o Fresh(1) have o': "spec_bfs_order sel w lm (n # rest) seen = Some (n # ord)"
    by (simp add: spec_bfs_order_fresh)
  have a0: "node_id x \<in> set seen \<or> x \<in> set (n # ord)" if "x \<in> set (rest @ ?ps)" for x
  proof -
    from a that have "node_id x \<in> set seen \<or> node_id x = node_id n \<or> x \<in> set ord" by auto
    with same[OF that] show ?thesis by auto
  qed
  have a': "\<forall>x\<in>set (n # rest). node_id x \<in> set seen \<or> x \<in> set (n # ord)"
    using a0 by simp
  have b': "node_id p \<in> set seen \<or> p \<in> set (n # ord)"
    if m: "m \<in> set (n # ord)" and p: "p \<in> set (spec_preds w lm sel (get_inputs m))" for m p
  proof (cases "m = n")
    case True
    with p have "p \<in> set (rest @ ?ps)" by simp
    then show ?thesis by (rule a0)
  next
    case False
    with m have "m \<in> set ord" by simp
    with b p have "node_id p \<in> set seen \<or> node_id p = node_id n \<or> p \<in> set ord" by auto
    moreover have "p = n" if "node_id p = node_id n"
    proof -
      from p have "get_node_by_id w (JInt (node_id p)) = Some p" by (rule spec_preds_registered)
      moreover have "get_node_by_id w (JInt (node_id n)) = Some n" by (intro reg) simp
      ultimately show ?thesis using that by (rule registered_same)
    qed
    ultimately show ?thesis by auto
  qed
  from o' a' b' show ?case by blast
qed

lemma spec_bfs_order_upstream:
  "\<exists>ord. spec_bfs_order sel w lm [n] [] = Some ord \<and> n \<in> set ord
     \<and> (\<forall>m\<in>set ord. \<forall>p\<in>set (spec_preds w lm sel (get_inputs m)).
           node_id p = node_id n \<or> p \<in> set ord)"
proof -
  let ?ps = "spec_preds w lm sel (get_inputs n)"
  have "\<forall>x\<in>set ?ps. get_node_by_id w (JInt (node_id x)) = Some x"
    using spec_preds_registered by blast
  from spec_bfs_order_closed[OF this, where sel = sel and lm = lm and seen = "[node_id n]"]
  obtain ord where
    o: "spec_bfs_order sel w lm ?ps [node_id n] = Some ord" and
    a: "\<forall>x\<in>set ?ps. node_id x \<in> set [node_id n] \<or> x \<in> set ord" and
    b: "\<forall>m\<in>set ord. \<forall>p\<in>set (spec_preds w lm sel (get_inputs m)).
           node_id p \<in> set [node_id n] \<or> p \<in> set ord" by blast
  from o have o': "spec_bfs_order sel w lm [n] [] = Some (n # ord)"
    by (simp add: spec_bfs_order_fresh)
  have "node_id p = node_id n \<or> p \<in> set (n # ord)"
    if "m \<in> set (n # ord)" "p \<in> set (spec_preds w lm sel (get_inputs m))" for m p
    using that a b by (cases "m = n") auto
  with o' show ?thesis by auto
qed

subsection \<open>An exception of the resolver comes from a node upstream of the start node\<close>

lemma follow_raise_upstream:
  assumes sel: "\<And>i. sel i \<Longrightarrow> text_source i"
  shows "follow fuel w lm sel v inps = Some (Inl e, v') \<Longrightarrow> set inps \<subseteq> set (get_inputs m) \<Longrightarrow>
     i0 \<in> set v \<Longrightarrow>
     lookup_fails lm text_source m e
     \<or> (\<exists>p v1 v2. p \<in> set (spec_preds w lm text_source (get_inputs m)) \<and> i0 \<in> set v1
           \<and> helper fuel w lm v1 p = Some (Inl e, v2))"
proof (induction inps arbitrary: v)
  case Nil
  then show ?case by simp
next
  case (Cons inp rest)
  from Cons.prems(2) have sub: "set rest \<subseteq> set (get_inputs m)" and mem: "inp \<in> set (get_inputs m)"
    by simp_all
  have step: ?case if "follow fuel w lm sel u rest = Some (Inl e, v')" "i0 \<in> set u" for u
    using Cons.IH[OF that(1) sub that(2)] .
  show ?case
  proof (cases "sel inp")
    case False
    with Cons.prems(1) have "follow fuel w lm sel v rest = Some (Inl e, v')" by simp
    then show ?thesis using Cons.prems(3) by (rule step)
  next
    case True
    show ?thesis
    proof (cases "slot_link inp")
      case None
      with True Cons.prems(1) have "follow fuel w lm sel v rest = Some (Inl e, v')" by simp
      then show ?thesis using Cons.prems(3) by (rule step)
    next
      case (Some k)
      show ?thesis
      proof (cases "link_source w lm k")
        case (Inl e')
        with True Some Cons.prems(1) have "e = e'" by simp
        with Inl have "lm k = None \<and> e = KeyError k"
          by (auto simp: link_source_def split: option.splits)
        with mem sel[OF True] Some have "lookup_fails lm text_source m e"
          unfolding lookup_fails_def by blast
        then show ?thesis by simp
      next
        case (Inr pred)
        show ?thesis
        proof (cases pred)
          case None
          with True Some Inr Cons.prems(1) have "follow fuel w lm sel v rest = Some (Inl e, v')"
            by simp
          then show ?thesis using Cons.prems(3) by (rule step)
        next
          case p: (Some p)
          from Inr p have ls: "link_source w lm k = Inr (Some p)" by simp
          from spec_preds_mem[where sel = text_source, OF mem sel[OF True] Some ls]
          have pin: "p \<in> set (spec_preds w lm text_source (get_inputs m))" .
          show ?thesis
          proof (cases "helper fuel w lm v p")
            case None
            with True Some Inr p Cons.prems(1) show ?thesis by simp
          next
            case h: (Some rv)
            obtain r1 v1 where rv: "rv = (r1, v1)" by (cases rv)
            from h rv helper_follow_visited(1)[of fuel w lm v p r1 v1] Cons.prems(3)
            have i1: "i0 \<in> set v1" by auto
            show ?thesis
            proof (cases r1)
              case e1: (Inl e1)
              with True Some Inr p h rv Cons.prems(1) have "e1 = e" by simp
              with h rv e1 have "helper fuel w lm v p = Some (Inl e, v1)" by simp
              with pin Cons.prems(3) show ?thesis by blast
            next
              case r: (Inr res)
              show ?thesis
              proof (cases "truthy_str res")
                case True
                with \<open>sel inp\<close> Some Inr p h rv r Cons.prems(1) show ?thesis by simp
              next
                case False
                with \<open>sel inp\<close> Some Inr p h rv r Cons.prems(1)
                have "follow fuel w lm sel v1 rest = Some (Inl e, v')" by simp
                then show ?thesis using i1 by (rule step)
              qed
            qed
          qed
        qed
      qed
    qed
  qed
qed

lemma helper_raise_upstream:
  assumes closed: "\<forall>m\<in>U. \<forall>p\<in>set (spec_preds w lm text_source (get_inputs m)). node_id p = i0 \<or> p \<in> U"
  shows "helper fuel w lm v n = Some (Inl e, v') \<Longrightarrow> n \<in> U \<Longrightarrow> i0 \<in> set v \<or> node_id n = i0 \<Longrightarrow>
     \<exists>m. m \<in> U \<and> (clip_inline m = Inl e \<or> lookup_fails lm text_source m e)"
proof (induction fuel arbitrary: v n v')
  case 0
  then show ?case by simp
next
  case (Suc fuel)
  let ?cause = "\<lambda>m. clip_inline m = Inl e \<or> lookup_fails lm text_source m e"
  have fresh: "node_id n \<notin> set v"
  proof
    assume "node_id n \<in> set v"
    with Suc.prems(1) show False by simp
  qed
  have from_follow: "\<exists>m. m \<in> U \<and> ?cause m"
    if f: "follow fuel w lm sel u (get_inputs n) = Some (Inl e, v')"
      and s: "\<And>i. sel i \<Longrightarrow> text_source i" and i: "i0 \<in> set u" for sel u
  proof -
    from follow_raise_upstream[where sel = sel and m = n, OF s f _ i]
    have "lookup_fails lm text_source n e
     \<or> (\<exists>p v1 v2. p \<in> set (spec_preds w lm text_source (get_inputs n)) \<and> i0 \<in> set v1
           \<and> helper fuel w lm v1 p = Some (Inl e, v2))" by simp
    then show ?thesis
    proof
      assume "lookup_fails lm text_source n e"
      with Suc.prems(2) show ?thesis by blast
    next
      assume "\<exists>p v1 v2. p \<in> set (spec_preds w lm text_source (get_inputs n)) \<and> i0 \<in> set v1
           \<and> helper fuel w lm v1 p = Some (Inl e, v2)"
      then obtain p v1 v2 where
        p: "p \<in> set (spec_preds w lm text_source (get_inputs n))" and i1: "i0 \<in> set v1" and
        h: "helper fuel w lm v1 p = Some (Inl e, v2)" by blast
      have "node_id p \<notin> set v1"
      proof
        assume "node_id p \<in> set v1"
        with h show False by (cases fuel) simp_all
      qed
      with i1 have "node_id p \<noteq> i0" by auto
      with closed Suc.prems(2) p have "p \<in> U" by blast
      from Suc.IH[OF h this] i1 show ?thesis by simp
    qed
  qed
  from Suc.prems(3) have i': "i0 \<in> set (v @ [node_id n])" by auto
  show ?case
  proof (cases "clip_inline n")
    case (Inl e')
    with fresh Suc.prems(1) have "e' = e" by simp
    with Inl Suc.prems(2) show ?thesis by blast
  next
    case (Inr lit)
    show ?thesis
    proof (cases lit)
      case (Some s)
      with fresh Inr Suc.prems(1) show ?thesis by simp
    next
      case None
      show ?thesis
      proof (cases "widget_string n")
        case (Some s)
        with fresh Inr None Suc.prems(1) show ?thesis by simp
      next
        case ws: None
        show ?thesis
        proof (cases "follow fuel w lm named_text (v @ [node_id n]) (get_inputs n)")
          case f0: None
          with fresh Inr None ws Suc.prems(1) show ?thesis by simp
        next
          case f1: (Some rv)
          obtain r1 v1 where rv: "rv = (r1, v1)" by (cases rv)
          from f1 rv helper_follow_visited(2)[of fuel w lm named_text "v @ [node_id n]" "get_inputs n" r1 v1] i'
          have i1: "i0 \<in> set v1" by auto
          show ?thesis
          proof (cases r1)
            case e1: (Inl e1)
            with fresh Inr None ws f1 rv Suc.prems(1) have "e1 = e" "v1 = v'" by simp_all
            with f1 rv e1
            have "follow fuel w lm named_text (v @ [node_id n]) (get_inputs n) = Some (Inl e, v')"
              by simp
            then show ?thesis using _ i' by (rule from_follow) (simp add: text_source_def)
          next
            case r: (Inr res)
            show ?thesis
            proof (cases "truthy_str res")
              case True
              with fresh Inr None ws f1 rv r Suc.prems(1) show ?thesis by simp
            next
              case nt: False
              with fresh Inr None ws f1 rv r Suc.prems(1)
              have "follow fuel w lm typed_string v1 (get_inputs n) = Some (Inl e, v')" by simp
              then show ?thesis using _ i1 by (rule from_follow) (simp add: text_source_def)
            qed
          qed
        qed
      qed
    qed
  qed
qed

lemma extract_raise_upstream:
  "\<exists>ord. spec_bfs_order text_source w (build_link_map w) [n] [] = Some ord
     \<and> (\<forall>e. extract_string_value_recursive w n = Some (Inl e) \<longrightarrow>
          (\<exists>m. m \<in> set ord
             \<and> (clip_inline m = Inl e \<or> lookup_fails (build_link_map w) text_source m e)))"
proof -
  let ?lm = "build_link_map w"
  from spec_bfs_order_upstream[where sel = text_source and w = w and lm = ?lm and n = n]
  obtain ord where
    o: "spec_bfs_order text_source w ?lm [n] [] = Some ord" and n: "n \<in> set ord" and
    c: "\<forall>m\<in>set ord. \<forall>p\<in>set (spec_preds w ?lm text_source (get_inputs m)).
           node_id p = node_id n \<or> p \<in> set ord" by blast
  have "\<exists>m. m \<in> set ord \<and> (clip_inline m = Inl e \<or> lookup_fails ?lm text_source m e)"
    if "extract_string_value_recursive w n = Some (Inl e)" for e
  proof -
    from that obtain v' where
      h: "helper (resolver_fuel w) w ?lm [] n = Some (Inl e, v')"
      by (auto simp: extract_string_value_recursive_def)
    from helper_raise_upstream[where U = "set ord" and ?i0.0 = "node_id n", OF c h n]
    show ?thesis by simp
  qed
  with o show ?thesis by blast
qed
section \<open>Output-node locator\<close>

text \<open>
  Claim C7.  The locator returns nothing exactly when no node's type contains an
  image-save marker.  Otherwise it returns a matching node \<open>n\<close> of the node sequence such
  that every matching node before it has a strictly smaller order and every matching node
  after it has an order that is at most its own (a missing order counts as 0): the
  highest order wins, and among equal orders the first node in the sequence.
\<close>

theorem locator_highest_order:
  "(case find_highest_order_saveimage w of
      None \<Rightarrow> \<forall>n\<in>set (wf_nodes w). \<not> is_saveimage n
    | Some n \<Rightarrow>
        \<exists>pre post. wf_nodes w = pre @ n # post \<and> is_saveimage n
          \<and> (\<forall>c\<in>set pre. is_saveimage c \<longrightarrow> get_order c < get_order n)
          \<and> (\<forall>c\<in>set post. is_saveimage c \<longrightarrow> get_order c \<le> get_order n))"
proof (cases "filter is_saveimage (wf_nodes w)")
  case Nil
  then have "\<forall>n\<in>set (wf_nodes w). \<not> is_saveimage n" by (simp add: filter_empty_conv)
  with Nil show ?thesis by (simp add: find_highest_order_saveimage_def)
next
  case (Cons c cs)
  define m where "m = max_from get_order c cs"
  from max_from_split[of c cs get_order] obtain pre' post' where
    s: "c # cs = pre' @ m # post'"
    and lt: "\<forall>x\<in>set pre'. get_order x < get_order m"
    and le: "\<forall>x\<in>set post'. get_order x \<le> get_order m" unfolding m_def by blast
  from filter_split_lift[of is_saveimage "wf_nodes w" pre' m post'] Cons s
  obtain pre post where
    p: "wf_nodes w = pre @ m # post" "filter is_saveimage pre = pre'"
       "filter is_saveimage post = post'" "is_saveimage m" by auto
  have "\<forall>x\<in>set pre. is_saveimage x \<longrightarrow> get_order x < get_order m" using lt p(2) by auto
  moreover have "\<forall>x\<in>set post. is_saveimage x \<longrightarrow> get_order x \<le> get_order m" using le p(3) by auto
  ultimately have "\<exists>pre post. wf_nodes w = pre @ m # post \<and> is_saveimage m
          \<and> (\<forall>c\<in>set pre. is_saveimage c \<longrightarrow> get_order c < get_order m)
          \<and> (\<forall>c\<in>set post. is_saveimage c \<longrightarrow> get_order c \<le> get_order m)"
    using p(1,4) by blast
  then show ?thesis using Cons by (simp add: find_highest_order_saveimage_def m_def)
qed

theorem locator_highest_order_witness:
  "find_highest_order_saveimage save_nodes = Some (mk_node 3 ''Save Image (custom)'' (Some 5) [] None)
   \<and> (\<exists>pre post. wf_nodes save_nodes = pre @ mk_node 3 ''Save Image (custom)'' (Some 5) [] None # post
        \<and> pre \<noteq> [] \<and> post \<noteq> []
        \<and> (\<forall>c\<in>set pre. is_saveimage c \<longrightarrow> get_order c < 5)
        \<and> (\<forall>c\<in>set post. is_saveimage c \<longrightarrow> get_order c \<le> 5))"
proof -
  have r: "find_highest_order_saveimage save_nodes = Some (mk_node 3 ''Save Image (custom)'' (Some 5) [] None)"
    by (simp add: find_highest_order_saveimage_def save_nodes_def mk_node_def is_saveimage_def
        get_type_def get_order_def)
  have o: "get_order (mk_node 3 ''Save Image (custom)'' (Some 5) [] None) = 5"
    by (simp add: get_order_def mk_node_def)
  from locator_highest_order[of save_nodes] have
    "\<exists>pre post. wf_nodes save_nodes = pre @ mk_node 3 ''Save Image (custom)'' (Some 5) [] None # post
        \<and> (\<forall>c\<in>set pre. is_saveimage c \<longrightarrow> get_order c < 5)
        \<and> (\<forall>c\<in>set post. is_saveimage c \<longrightarrow> get_order c \<le> 5)"
    unfolding r option.case o by blast
  then obtain pre post where
    p: "wf_nodes save_nodes = pre @ mk_node 3 ''Save Image (custom)'' (Some 5) [] None # post"
    and lt: "\<forall>c\<in>set pre. is_saveimage c \<longrightarrow> get_order c < 5"
    and le: "\<forall>c\<in>set post. is_saveimage c \<longrightarrow> get_order c \<le> 5"
    by blast
  have s1: "is_saveimage (mk_node 1 ''SaveImage'' (Some 1) [] None)"
    by (simp add: is_saveimage_def mk_node_def get_type_def)
  have "pre \<noteq> []"
  proof
    assume "pre = []"
    with p show False by (simp add: save_nodes_def mk_node_def)
  qed
  moreover have "post \<noteq> []"
  proof
    assume "post = []"
    with p have "last (wf_nodes save_nodes) = mk_node 3 ''Save Image (custom)'' (Some 5) [] None"
      by simp
    then show False by (simp add: save_nodes_def mk_node_def)
  qed
  ultimately show ?thesis using r p lt le by blast
qed

section \<open>Termination of the traversals\<close>

text \<open>
  Claim C8.  On every workflow, from every queue and every set of seen ids, both upstream
  searches return (with a result, absent, or an exception): they do not run forever, also
  on graphs with cycles or re-convergent paths.  The ids they process, in order, extend
  the ids seen before and contain no id twice if those did not; a dequeued node whose id
  has been seen is skipped without being processed.  The resolver's recursion returns
  within the fuel \<open>resolver_fuel w\<close> (the number of nodes plus two) and visits no id
  twice; any larger fuel gives the same result, so the bound does not show in it.  A call
  on a node whose id is in the visited set returns "no value" at once and leaves the set
  unchanged.
\<close>

theorem traversals_terminate:
  "(\<exists>r s. positive_loop w q seen = Some (r, s) \<and> prefix seen s \<and> (distinct seen \<longrightarrow> distinct s))
   \<and> (\<exists>r s. clip_loop w q seen = Some (r, s) \<and> prefix seen s \<and> (distinct seen \<longrightarrow> distinct s))
   \<and> (node_id n \<in> set seen \<longrightarrow>
        positive_loop w (n # q) seen = positive_loop w q seen
        \<and> clip_loop w (n # q) seen = clip_loop w q seen)
   \<and> (\<exists>r v. helper (resolver_fuel w) w (build_link_map w) [] n = Some (r, v) \<and> distinct v)
   \<and> (\<forall>k. helper (resolver_fuel w + k) w (build_link_map w) [] n
            = helper (resolver_fuel w) w (build_link_map w) [] n)
   \<and> (node_id n \<in> set seen \<longrightarrow> helper (Suc fuel) w lm seen n = Some (Inr None, seen))"
proof -
  have 1: "\<exists>r s. positive_loop w q seen = Some (r, s) \<and> prefix seen s \<and> (distinct seen \<longrightarrow> distinct s)"
    unfolding positive_loop_def by (rule bfs_loop_total)
  have 2: "\<exists>r s. clip_loop w q seen = Some (r, s) \<and> prefix seen s \<and> (distinct seen \<longrightarrow> distinct s)"
    unfolding clip_loop_def by (rule bfs_loop_total)
  have 3: "positive_loop w (n # q) seen = positive_loop w q seen" if "node_id n \<in> set seen"
    unfolding positive_loop_def using that by (subst bfs_loop.simps) simp
  have 4: "clip_loop w (n # q) seen = clip_loop w q seen" if "node_id n \<in> set seen"
    unfolding clip_loop_def using that by (subst bfs_loop.simps) simp
  from resolver_fuel_enough[of w "build_link_map w" n] obtain r v where
    h: "helper (resolver_fuel w) w (build_link_map w) [] n = Some (r, v)" by blast
  from helper_follow_visited(1)[OF h] have "distinct v" by simp
  with h have 5: "\<exists>r v. helper (resolver_fuel w) w (build_link_map w) [] n = Some (r, v) \<and> distinct v"
    by blast
  have 6: "helper (Suc fuel) w lm seen n = Some (Inr None, seen)" if "node_id n \<in> set seen"
    using that by simp
  have 7: "helper (resolver_fuel w + k) w (build_link_map w) [] n
            = helper (resolver_fuel w) w (build_link_map w) [] n" for k
    using helper_fuel_add[OF h, of k] h by simp
  from 1 2 3 4 5 6 7 show ?thesis by blast
qed

theorem traversals_terminate_witness:
  "distinct ([] :: int list)
   \<and> positive_loop cyc [cyc1] [] = Some (Inr None, [1, 2, 3])
   \<and> clip_loop cyc [cyc1] [] = Some (Inr None, [1, 2, 3])
   \<and> node_id cyc1 \<in> set [1, 2, 3]
   \<and> positive_loop cyc [cyc1, cyc2] [1, 2, 3] = positive_loop cyc [cyc2] [1, 2, 3]
   \<and> helper (resolver_fuel cyc) cyc (build_link_map cyc) [] cyc3 = Some (Inr None, [3, 2, 1])
   \<and> helper (Suc 0) cyc (build_link_map cyc) [1, 2, 3] cyc1 = Some (Inr None, [1, 2, 3])"
proof -
  have p: "positive_loop cyc [cyc1] [] = Some (Inr None, [1, 2, 3])" by code_simp
  have c: "clip_loop cyc [cyc1] [] = Some (Inr None, [1, 2, 3])" by code_simp
  have h: "helper (resolver_fuel cyc) cyc (build_link_map cyc) [] cyc3 = Some (Inr None, [3, 2, 1])"
    by code_simp
  have i: "node_id cyc1 \<in> set [1, 2, 3]" by (simp add: cyc1_def mk_node_def)
  from traversals_terminate[where w = cyc and q = "[cyc2]" and seen = "[1, 2, 3]" and n = cyc1
      and fuel = 0 and lm = "build_link_map cyc"] i
  have "positive_loop cyc [cyc1, cyc2] [1, 2, 3] = positive_loop cyc [cyc2] [1, 2, 3]"
    and "helper (Suc 0) cyc (build_link_map cyc) [1, 2, 3] cyc1 = Some (Inr None, [1, 2, 3])"
    by blast+
  with p c h i show ?thesis by simp
qed

section \<open>The resolver's first two rules\<close>

text \<open>
  Claim C3.  For a text-encoder node (its type contains \<^verbatim>\<open>CLIPTextEncode\<close>) that has no
  slot named \<^verbatim>\<open>text\<close>, or whose first slot of that name has no \<^verbatim>\<open>link\<close> attribute, and
  whose \<^verbatim>\<open>widgets_values\<close> is a list that starts with a string \<open>s\<close>, the resolver returns
  \<open>s\<close> stripped of surrounding whitespace, whatever the rest of the workflow is (no later
  rule and no link is consulted).  For the list \<^verbatim>\<open>["a cat, masterpiece"]\<close> the result is
  exactly that string.
\<close>

theorem rule1_inline_literal:
  assumes "is_clip n"
    and "find (\<lambda>i. slot_name i = Some ''text'') (get_inputs n) = None
         \<or> (\<exists>i. find (\<lambda>i. slot_name i = Some ''text'') (get_inputs n) = Some i \<and> slot_link i = None)"
    and "node_widgets_values n = Some (WList (WStr s # rest))"
  shows "extract_string_value_recursive w n = Some (Inr (Some (strip s)))
         \<and> (s = ''a cat, masterpiece'' \<longrightarrow>
              extract_string_value_recursive w n = Some (Inr (Some ''a cat, masterpiece'')))"
proof -
  from assms(2) have "\<not> text_linked n" by (auto simp: text_linked_def)
  with assms(1,3) have "clip_inline n = Inr (Some (strip s))"
    by (simp add: clip_inline_def)
  then have r: "extract_string_value_recursive w n = Some (Inr (Some (strip s)))"
    by (simp add: extract_unfold)
  have "strip ''a cat, masterpiece'' = ''a cat, masterpiece''"
    by (simp add: strip_def is_space_def)
  with r show ?thesis by simp
qed

theorem rule1_inline_literal_witness:
  "is_clip encoder
   \<and> (\<exists>i. find (\<lambda>i. slot_name i = Some ''text'') (get_inputs encoder) = Some i \<and> slot_link i = None)
   \<and> node_widgets_values encoder = Some (WList [WStr ''a cat, masterpiece''])
   \<and> extract_string_value_recursive pipeline encoder = Some (Inr (Some ''a cat, masterpiece''))"
proof -
  have 1: "is_clip encoder"
    by (simp add: is_clip_def encoder_def mk_node_def get_type_def)
  have 2: "\<exists>i. find (\<lambda>i. slot_name i = Some ''text'') (get_inputs encoder) = Some i \<and> slot_link i = None"
    by (simp add: encoder_def mk_node_def mk_slot_def get_inputs_def)
  have 3: "node_widgets_values encoder = Some (WList (WStr ''a cat, masterpiece'' # []))"
    by (simp add: encoder_def mk_node_def)
  from rule1_inline_literal[OF 1 disjI2[OF 2] 3, of pipeline]
  have "extract_string_value_recursive pipeline encoder = Some (Inr (Some ''a cat, masterpiece''))"
    by blast
  with 1 2 3 show ?thesis by simp
qed

text \<open>
  Claim C4.  When rule 1 does not return (\<open>clip_inline n = Inr None\<close>: the node is no text
  encoder, or its \<^verbatim>\<open>text\<close> slot has a link attribute, or its first widget value is not
  a string) and the flattened \<^verbatim>\<open>widgets_values\<close> holds a string that is not blank, the
  resolver returns, stripped, the longest of the non-blank strings: every non-blank
  string before it in the flattened list is strictly shorter and every one after it is
  at most as long.  Length is the character count of the string as stored, before
  stripping.
\<close>

theorem rule2_longest_string:
  assumes "clip_inline n = Inr None"
    and "node_widgets_values n = Some wv"
    and "filter (\<lambda>s. strip s \<noteq> []) (flatten_strings wv) \<noteq> []"
  shows "\<exists>pre m post.
           filter (\<lambda>s. strip s \<noteq> []) (flatten_strings wv) = pre @ m # post
           \<and> (\<forall>s\<in>set pre. length s < length m)
           \<and> (\<forall>s\<in>set post. length s \<le> length m)
           \<and> extract_string_value_recursive w n = Some (Inr (Some (strip m)))"
proof -
  from assms(3) obtain x xs where
    f: "filter (\<lambda>s. strip s \<noteq> []) (flatten_strings wv) = x # xs"
    by (cases "filter (\<lambda>s. strip s \<noteq> []) (flatten_strings wv)") auto
  from nonblank_truthy[OF assms(3)] assms(2) f
  have ws: "widget_string n = Some (strip (max_from length x xs))"
    by (simp add: widget_string_def)
  from max_from_split[of x xs length] obtain pre post where
    "x # xs = pre @ max_from length x xs # post"
    "\<forall>s\<in>set pre. length s < length (max_from length x xs)"
    "\<forall>s\<in>set post. length s \<le> length (max_from length x xs)" by blast
  moreover from assms(1) ws
  have "extract_string_value_recursive w n = Some (Inr (Some (strip (max_from length x xs))))"
    by (simp add: extract_unfold)
  ultimately show ?thesis unfolding f by blast
qed

theorem rule2_longest_string_witness:
  "clip_inline show_text = Inr None
   \<and> node_widgets_values show_text = Some (WList [WStr ''neg'', WStr ''a cat, highly detailed, 4k''])
   \<and> filter (\<lambda>s. strip s \<noteq> [])
         (flatten_strings (WList [WStr ''neg'', WStr ''a cat, highly detailed, 4k'']))
       = [''neg'', ''a cat, highly detailed, 4k'']
   \<and> extract_string_value_recursive pipeline show_text
       = Some (Inr (Some ''a cat, highly detailed, 4k''))
   \<and> (\<exists>pre m post. [''neg'', ''a cat, highly detailed, 4k''] = pre @ m # post
         \<and> (\<forall>s\<in>set pre. length s < length m) \<and> (\<forall>s\<in>set post. length s \<le> length m)
         \<and> extract_string_value_recursive pipeline show_text = Some (Inr (Some (strip m))))"
proof -
  have 1: "clip_inline show_text = Inr None"
    by (simp add: clip_inline_def is_clip_def show_text_def mk_node_def get_type_def)
  have 2: "node_widgets_values show_text = Some (WList [WStr ''neg'', WStr ''a cat, highly detailed, 4k''])"
    by (simp add: show_text_def mk_node_def)
  have 3: "filter (\<lambda>s. strip s \<noteq> [])
         (flatten_strings (WList [WStr ''neg'', WStr ''a cat, highly detailed, 4k'']))
       = [''neg'', ''a cat, highly detailed, 4k'']"
    by (simp add: strip_def is_space_def)
  have 4: "extract_string_value_recursive pipeline show_text
       = Some (Inr (Some ''a cat, highly detailed, 4k''))"
    by code_simp
  from 3 have ne: "filter (\<lambda>s. strip s \<noteq> [])
         (flatten_strings (WList [WStr ''neg'', WStr ''a cat, highly detailed, 4k''])) \<noteq> []"
    by simp
  from rule2_longest_string[OF 1 2 ne, of pipeline] 1 2 3 4 show ?thesis by simp
qed

section \<open>A null link counts as a link\<close>

text \<open>
  Claim C10.  Whether the \<^verbatim>\<open>text\<close> slot is linked is decided by the presence of the
  \<^verbatim>\<open>link\<close> attribute.  When the first slot named \<^verbatim>\<open>text\<close> carries \<^verbatim>\<open>"link": null\<close>, the
  node counts as linked and rule 1 does not return, also on a text encoder whose first
  widget value is a string: the resolver returns rule 2's string if there is one, and
  otherwise looks the null link up in the link table, which raises \<^verbatim>\<open>KeyError\<close> when no
  link record has a null id.
\<close>

theorem null_link_counts_as_linked:
  assumes "find (\<lambda>i. slot_name i = Some ''text'') (get_inputs n) = Some i"
    and "slot_link i = Some JNull"
  shows "text_linked n \<and> clip_inline n = Inr None
         \<and> (\<forall>s. widget_string n = Some s \<longrightarrow>
               extract_string_value_recursive w n = Some (Inr (Some s)))
         \<and> (widget_string n = None \<and> build_link_map w JNull = None \<longrightarrow>
               extract_string_value_recursive w n = Some (Inl (KeyError JNull)))"
proof -
  from assms have tl: "text_linked n" by (simp add: text_linked_def)
  then have ci: "clip_inline n = Inr None" by (simp add: clip_inline_def)
  have r2: "extract_string_value_recursive w n = Some (Inr (Some s))" if "widget_string n = Some s" for s
    using ci that by (simp add: extract_unfold)
  have r3: "extract_string_value_recursive w n = Some (Inl (KeyError JNull))"
    if ws: "widget_string n = None" and nl: "build_link_map w JNull = None"
  proof -
    from find_conj[OF assms(1), of "\<lambda>i. slot_link i \<noteq> None"] assms(2)
    have "find (\<lambda>i. named_text i \<and> slot_link i \<noteq> None) (get_inputs n) = Some i"
      by (simp add: named_text_def)
    from follow_first_raises[OF this assms(2)
        link_source_absent[where lm = "build_link_map w" and k = JNull and w = w, OF nl]]
    have "follow fuel (w) (build_link_map w) named_text v (get_inputs n) = Some (Inl (KeyError JNull), v)"
      for fuel v .
    with ci ws show ?thesis by (simp add: extract_unfold)
  qed
  from tl ci r2 r3 show ?thesis by blast
qed

theorem null_link_counts_as_linked_witness:
  "find (\<lambda>i. slot_name i = Some ''text'') (get_inputs (null_linked (Some two_strings)))
     = Some (mk_slot ''text'' ''STRING'' (Some JNull))
   \<and> slot_link (mk_slot ''text'' ''STRING'' (Some JNull)) = Some JNull
   \<and> is_clip (null_linked (Some two_strings))
   \<and> clip_inline (null_linked (Some two_strings)) = Inr None
   \<and> widget_string (null_linked (Some two_strings)) = Some ''the longer literal''
   \<and> extract_string_value_recursive pipeline (null_linked (Some two_strings))
       = Some (Inr (Some ''the longer literal''))
   \<and> widget_string (null_linked None) = None \<and> build_link_map pipeline JNull = None
   \<and> extract_string_value_recursive pipeline (null_linked None) = Some (Inl (KeyError JNull))"
proof -
  have f: "find (\<lambda>i. slot_name i = Some ''text'') (get_inputs (null_linked wv))
     = Some (mk_slot ''text'' ''STRING'' (Some JNull))" for wv
    by (simp add: null_linked_def mk_node_def mk_slot_def get_inputs_def)
  have l: "slot_link (mk_slot ''text'' ''STRING'' (Some JNull)) = Some JNull"
    by (simp add: mk_slot_def)
  have c: "is_clip (null_linked (Some two_strings))"
    by (simp add: is_clip_def null_linked_def mk_node_def get_type_def)
  have ws: "widget_string (null_linked (Some two_strings)) = Some ''the longer literal''"
    by (simp add: widget_string_def null_linked_def mk_node_def two_strings_def strip_def is_space_def)
  have wn: "widget_string (null_linked None) = None"
    by (simp add: widget_string_def null_linked_def mk_node_def)
  have nl: "build_link_map pipeline JNull = None"
    by (simp add: build_link_map_def pipeline_def add_link_def mk_link_def)
  from null_link_counts_as_linked[OF f l, of "Some two_strings" pipeline] ws
  have "clip_inline (null_linked (Some two_strings)) = Inr None"
    and "extract_string_value_recursive pipeline (null_linked (Some two_strings))
       = Some (Inr (Some ''the longer literal''))" by blast+
  moreover from null_link_counts_as_linked[OF f l, of None pipeline] wn nl
  have "extract_string_value_recursive pipeline (null_linked None) = Some (Inl (KeyError JNull))"
    by blast
  ultimately show ?thesis using f l c ws wn nl by simp
qed

section \<open>The per-document entry point\<close>

text \<open>
  Claim C9.  For every document the entry point returns a pair of which exactly one
  component is present: a prompt and no reason, or no prompt and a reason.  A returned
  prompt is a non-empty string that equals its own strip.  When the save node, the start
  node, the conditioning source and the text encoder have been found, what the resolver
  gives for the encoder decides: absent, or a string whose strip is empty (an empty or
  whitespace-only string), is reported as \<open>NoPromptResolved\<close> with no prompt; a string
  whose strip is not empty is returned as the prompt with no reason.
\<close>

theorem entry_point_result:
  "(\<exists>p r. extract_final_positive_prompt_from_png doc = Some (p, r)
      \<and> ((p = None) \<noteq> (r = None))
      \<and> (\<forall>s. p = Some s \<longrightarrow> s \<noteq> [] \<and> strip s = s))
   \<and> (find_highest_order_saveimage w = Some save
        \<and> truthy_scalar (find_input_link_id save ''images'')
        \<and> link_source w (build_link_map w) (find_input_link_id save ''images'') = Inr (Some start)
        \<and> bfs_upstream_to_positive_source w start = Some (Inr (Some pos))
        \<and> find_upstream_clip_encode w pos = Some (Inr (Some enc))
        \<and> extract_string_value_recursive w enc = Some (Inr prompt)
        \<and> (prompt = None \<or> (\<exists>s. prompt = Some s \<and> strip s = [])) \<longrightarrow>
        extract_final_positive_prompt_from_png (WithWorkflow w) = Some (None, Some NoPromptResolved))
   \<and> (find_highest_order_saveimage w = Some save
        \<and> truthy_scalar (find_input_link_id save ''images'')
        \<and> link_source w (build_link_map w) (find_input_link_id save ''images'') = Inr (Some start)
        \<and> bfs_upstream_to_positive_source w start = Some (Inr (Some pos))
        \<and> find_upstream_clip_encode w pos = Some (Inr (Some enc))
        \<and> extract_string_value_recursive w enc = Some (Inr (Some t))
        \<and> strip t \<noteq> [] \<longrightarrow>
        extract_final_positive_prompt_from_png (WithWorkflow w) = Some (Some t, None))"
proof -
  have A: "\<exists>p r. extract_final_positive_prompt_from_png doc = Some (p, r)
      \<and> ((p = None) \<noteq> (r = None))
      \<and> (\<forall>s. p = Some s \<longrightarrow> s \<noteq> [] \<and> strip s = s)"
    by (rule entry_point_shape)
  have B: "extract_final_positive_prompt_from_png (WithWorkflow w) = Some (None, Some NoPromptResolved)"
    if "find_highest_order_saveimage w = Some save"
      "truthy_scalar (find_input_link_id save ''images'')"
      "link_source w (build_link_map w) (find_input_link_id save ''images'') = Inr (Some start)"
      "bfs_upstream_to_positive_source w start = Some (Inr (Some pos))"
      "find_upstream_clip_encode w pos = Some (Inr (Some enc))"
      and x: "extract_string_value_recursive w enc = Some (Inr prompt)"
      and e: "prompt = None \<or> (\<exists>s. prompt = Some s \<and> strip s = [])"
  proof -
    have "\<not> truthy_str prompt"
    proof (cases prompt)
      case None
      then show ?thesis by simp
    next
      case (Some s)
      with e have "strip s = []" by simp
      moreover from x Some have "strip s = s" by (simp add: extract_stripped)
      ultimately show ?thesis using Some by simp
    qed
    with that(1-5) x show ?thesis by (simp add: extract_final_positive_prompt_from_png_def)
  qed
  have C: "extract_final_positive_prompt_from_png (WithWorkflow w) = Some (Some t, None)"
    if "find_highest_order_saveimage w = Some save"
      "truthy_scalar (find_input_link_id save ''images'')"
      "link_source w (build_link_map w) (find_input_link_id save ''images'') = Inr (Some start)"
      "bfs_upstream_to_positive_source w start = Some (Inr (Some pos))"
      "find_upstream_clip_encode w pos = Some (Inr (Some enc))"
      and x: "extract_string_value_recursive w enc = Some (Inr (Some t))"
      and e: "strip t \<noteq> []"
  proof -
    from e have "t \<noteq> []" by (auto simp: strip_Nil)
    then have "truthy_str (Some t)" by simp
    with that(1-5) x show ?thesis by (simp add: extract_final_positive_prompt_from_png_def)
  qed
  show ?thesis
  proof (intro conjI impI)
    show "\<exists>p r. extract_final_positive_prompt_from_png doc = Some (p, r)
      \<and> ((p = None) \<noteq> (r = None))
      \<and> (\<forall>s. p = Some s \<longrightarrow> s \<noteq> [] \<and> strip s = s)" by (rule A)
  next
    assume "find_highest_order_saveimage w = Some save
        \<and> truthy_scalar (find_input_link_id save ''images'')
        \<and> link_source w (build_link_map w) (find_input_link_id save ''images'') = Inr (Some start)
        \<and> bfs_upstream_to_positive_source w start = Some (Inr (Some pos))
        \<and> find_upstream_clip_encode w pos = Some (Inr (Some enc))
        \<and> extract_string_value_recursive w enc = Some (Inr prompt)
        \<and> (prompt = None \<or> (\<exists>s. prompt = Some s \<and> strip s = []))"
    then show "extract_final_positive_prompt_from_png (WithWorkflow w)
        = Some (None, Some NoPromptResolved)"
      by (elim conjE) (rule B, assumption+)
  next
    assume "find_highest_order_saveimage w = Some save
        \<and> truthy_scalar (find_input_link_id save ''images'')
        \<and> link_source w (build_link_map w) (find_input_link_id save ''images'') = Inr (Some start)
        \<and> bfs_upstream_to_positive_source w start = Some (Inr (Some pos))
        \<and> find_upstream_clip_encode w pos = Some (Inr (Some enc))
        \<and> extract_string_value_recursive w enc = Some (Inr (Some t))
        \<and> strip t \<noteq> []"
    then show "extract_final_positive_prompt_from_png (WithWorkflow w) = Some (Some t, None)"
      by (elim conjE) (rule C, assumption+)
  qed
qed

theorem entry_point_result_witness:
  "find_highest_order_saveimage pipeline = Some save_image
   \<and> truthy_scalar (find_input_link_id save_image ''images'')
   \<and> link_source pipeline (build_link_map pipeline) (find_input_link_id save_image ''images'')
       = Inr (Some decoder)
   \<and> bfs_upstream_to_positive_source pipeline decoder = Some (Inr (Some encoder))
   \<and> find_upstream_clip_encode pipeline encoder = Some (Inr (Some encoder))
   \<and> extract_string_value_recursive pipeline encoder = Some (Inr (Some ''a cat, masterpiece''))
   \<and> extract_final_positive_prompt_from_png (WithWorkflow pipeline)
       = Some (Some ''a cat, masterpiece'', None)
   \<and> ''a cat, masterpiece'' \<noteq> [] \<and> strip ''a cat, masterpiece'' = ''a cat, masterpiece''
   \<and> find_highest_order_saveimage blank_pipeline = Some save_image
   \<and> link_source blank_pipeline (build_link_map blank_pipeline)
        (find_input_link_id save_image ''images'') = Inr (Some decoder)
   \<and> bfs_upstream_to_positive_source blank_pipeline decoder = Some (Inr (Some blank_encoder))
   \<and> find_upstream_clip_encode blank_pipeline blank_encoder = Some (Inr (Some blank_encoder))
   \<and> node_widgets_values blank_encoder = Some (WList [WStr ''   ''])
   \<and> extract_string_value_recursive blank_pipeline blank_encoder = Some (Inr (Some []))
   \<and> strip [] = []
   \<and> extract_final_positive_prompt_from_png (WithWorkflow blank_pipeline)
       = Some (None, Some NoPromptResolved)"
proof -
  have t: "truthy_scalar (find_input_link_id save_image ''images'')" by code_simp
  have l0: "find_highest_order_saveimage pipeline = Some save_image" by code_simp
  have s0: "link_source pipeline (build_link_map pipeline) (find_input_link_id save_image ''images'')
      = Inr (Some decoder)" by code_simp
  have b0: "bfs_upstream_to_positive_source pipeline decoder = Some (Inr (Some encoder))"
    by code_simp
  have c0: "find_upstream_clip_encode pipeline encoder = Some (Inr (Some encoder))" by code_simp
  have x0: "extract_string_value_recursive pipeline encoder
      = Some (Inr (Some ''a cat, masterpiece''))" by code_simp
  have n0: "strip ''a cat, masterpiece'' \<noteq> []" by code_simp
  note good = entry_point_result[where w = pipeline and save = save_image and start = decoder
      and pos = encoder and enc = encoder and t = "''a cat, masterpiece''",
      THEN conjunct2, THEN conjunct2]
  from good l0 t s0 b0 c0 x0 n0
  have e: "extract_final_positive_prompt_from_png (WithWorkflow pipeline)
     = Some (Some ''a cat, masterpiece'', None)" by blast
  note shape = entry_point_result[where doc = "WithWorkflow pipeline", THEN conjunct1]
  from shape obtain p r where
    "extract_final_positive_prompt_from_png (WithWorkflow pipeline) = Some (p, r)"
    "\<forall>s. p = Some s \<longrightarrow> s \<noteq> [] \<and> strip s = s" by blast
  with e have 1: "''a cat, masterpiece'' \<noteq> [] \<and> strip ''a cat, masterpiece'' = ''a cat, masterpiece''"
    by simp
  have l: "find_highest_order_saveimage blank_pipeline = Some save_image" by code_simp
  have s: "link_source blank_pipeline (build_link_map blank_pipeline)
      (find_input_link_id save_image ''images'') = Inr (Some decoder)" by code_simp
  have b: "bfs_upstream_to_positive_source blank_pipeline decoder = Some (Inr (Some blank_encoder))"
    by code_simp
  have c: "find_upstream_clip_encode blank_pipeline blank_encoder = Some (Inr (Some blank_encoder))"
    by code_simp
  have wv: "node_widgets_values blank_encoder = Some (WList [WStr ''   ''])"
    by (simp add: blank_encoder_def mk_node_def)
  have x: "extract_string_value_recursive blank_pipeline blank_encoder = Some (Inr (Some []))"
    by code_simp
  have n: "strip [] = []" by (simp add: strip_def)
  note blank = entry_point_result[where w = blank_pipeline and save = save_image and start = decoder
      and pos = blank_encoder and enc = blank_encoder and prompt = "Some []",
      THEN conjunct2, THEN conjunct1]
  from blank l t s b c x n
  have 2: "extract_final_positive_prompt_from_png (WithWorkflow blank_pipeline)
       = Some (None, Some NoPromptResolved)" by blast
  from l0 t s0 b0 c0 x0 e 1 l s b c wv x n 2 show ?thesis by (simp only: simp_thms)
qed
section \<open>The upstream searches\<close>

text \<open>
  Claim C5 says that, for every workflow, the conditioning search returns the source of
  the link of a \<^verbatim>\<open>positive\<close> slot with a resolvable link at the first dequeued node that
  has one.  Node \<open>two_positives\<close> has such a slot (link 12, whose source is the encoder),
  but its first \<^verbatim>\<open>positive\<close> slot carries link id 77, which the link table does not hold,
  and the search started there ends in \<^verbatim>\<open>KeyError\<close>.
\<close>

theorem positive_search_counterexample:
  "slot_name (get_inputs two_positives ! 1) = Some ''positive''
   \<and> slot_link (get_inputs two_positives ! 1) = Some (JInt 12)
   \<and> link_source pipeline (build_link_map pipeline) (JInt 12) = Inr (Some encoder)
   \<and> bfs_upstream_to_positive_source pipeline two_positives = Some (Inl (KeyError (JInt 77)))"
proof -
  have 1: "slot_name (get_inputs two_positives ! 1) = Some ''positive''"
    by (simp add: two_positives_def mk_node_def mk_slot_def get_inputs_def)
  have 2: "slot_link (get_inputs two_positives ! 1) = Some (JInt 12)"
    by (simp add: two_positives_def mk_node_def mk_slot_def get_inputs_def)
  have 3: "link_source pipeline (build_link_map pipeline) (JInt 12) = Inr (Some encoder)"
    by code_simp
  have 4: "bfs_upstream_to_positive_source pipeline two_positives = Some (Inl (KeyError (JInt 77)))"
    by code_simp
  from 1 2 3 4 show ?thesis by simp
qed

text \<open>
  Claim C5 as amended.  Let \<open>ord\<close> be the breadth-first order of the nodes upstream of
  the start node (FIFO, backward over all linked input slots, each node id once).  The
  conditioning search answers at the first node \<open>c\<close> of \<open>ord\<close> that has a slot named
  \<^verbatim>\<open>positive\<close> with a link attribute, provided every node before \<open>c\<close> carries only link
  ids that the link table holds: with \<open>k\<close> the link id of the first such slot of \<open>c\<close>, it
  returns the node registered under the source id of link \<open>k\<close> (not \<open>c\<close> itself; absent
  when no node has that id) if the table holds \<open>k\<close>, and raises \<^verbatim>\<open>KeyError\<close> if \<open>k\<close> is
  an id the table does not hold.  If, before any such slot is met, a node is expanded that
  carries an id the table does not hold, the search raises \<^verbatim>\<open>KeyError\<close> of the first
  such id of that node.  If no node of \<open>ord\<close> has such a slot and all their link ids are
  in the table, the search returns absent.  (What a null link value does is left open.)
\<close>

theorem positive_search_first_positive:
  "\<exists>ord. spec_bfs_order (\<lambda>i. True) w (build_link_map w) [start] [] = Some ord
     \<and> (\<forall>pre c post inp k src a b c' d.
          ord = pre @ c # post
          \<and> (\<forall>m\<in>set pre.
                find (\<lambda>i. slot_name i = Some ''positive'' \<and> slot_link i \<noteq> None) (get_inputs m) = None
                \<and> resolves (build_link_map w) (\<lambda>i. True) m)
          \<and> find (\<lambda>i. slot_name i = Some ''positive'' \<and> slot_link i \<noteq> None) (get_inputs c) = Some inp
          \<and> slot_link inp = Some k \<and> build_link_map w k = Some (src, a, b, c', d) \<longrightarrow>
          bfs_upstream_to_positive_source w start = Some (Inr (get_node_by_id w src)))
     \<and> (\<forall>pre c post inp k.
          ord = pre @ c # post
          \<and> (\<forall>m\<in>set pre.
                find (\<lambda>i. slot_name i = Some ''positive'' \<and> slot_link i \<noteq> None) (get_inputs m) = None
                \<and> resolves (build_link_map w) (\<lambda>i. True) m)
          \<and> find (\<lambda>i. slot_name i = Some ''positive'' \<and> slot_link i \<noteq> None) (get_inputs c) = Some inp
          \<and> slot_link inp = Some k \<and> build_link_map w k = None \<and> k \<noteq> JNull \<longrightarrow>
          bfs_upstream_to_positive_source w start = Some (Inl (KeyError k)))
     \<and> (\<forall>pre c post inp k.
          ord = pre @ c # post
          \<and> (\<forall>m\<in>set pre.
                find (\<lambda>i. slot_name i = Some ''positive'' \<and> slot_link i \<noteq> None) (get_inputs m) = None
                \<and> resolves (build_link_map w) (\<lambda>i. True) m)
          \<and> find (\<lambda>i. slot_name i = Some ''positive'' \<and> slot_link i \<noteq> None) (get_inputs c) = None
          \<and> find (\<lambda>i. \<exists>j. slot_link i = Some j \<and> build_link_map w j = None) (get_inputs c) = Some inp
          \<and> slot_link inp = Some k \<and> k \<noteq> JNull \<longrightarrow>
          bfs_upstream_to_positive_source w start = Some (Inl (KeyError k)))
     \<and> ((\<forall>m\<in>set ord.
            find (\<lambda>i. slot_name i = Some ''positive'' \<and> slot_link i \<noteq> None) (get_inputs m) = None
            \<and> resolves (build_link_map w) (\<lambda>i. True) m) \<longrightarrow>
          bfs_upstream_to_positive_source w start = Some (Inr None))"
proof -
  let ?lm = "build_link_map w"
  let ?stop = "\<lambda>n. positive_source w ?lm (get_inputs n)"
  let ?pos = "\<lambda>i. slot_name i = Some ''positive'' \<and> slot_link i \<noteq> None"
  from bfs_loop_order[where stop = ?stop and sel = "\<lambda>i. True" and w = w and lm = ?lm
      and q = "[start]" and seen = "[]"]
  obtain ord s where
    o: "spec_bfs_order (\<lambda>i. True) w ?lm [start] [] = Some ord"
    and l: "positive_loop w [start] [] = Some (first_outcome ?stop (\<lambda>i. True) w ?lm ord, s)"
    unfolding positive_loop_def by blast
  from l have r: "bfs_upstream_to_positive_source w start
      = Some (first_outcome ?stop (\<lambda>i. True) w ?lm ord)"
    by (simp add: bfs_upstream_to_positive_source_def)
  have nostop: "?stop m = None" if "find ?pos (get_inputs m) = None" for m
    using that by (simp add: positive_source_find)
  have before: "\<forall>m\<in>set pre. ?stop m = None \<and> resolves ?lm (\<lambda>i. True) m"
    if "\<forall>m\<in>set pre. find ?pos (get_inputs m) = None \<and> resolves ?lm (\<lambda>i. True) m" for pre
    using that nostop by blast
  have 1: "bfs_upstream_to_positive_source w start = Some (Inr (get_node_by_id w src))"
    if "ord = pre @ c # post"
      and "\<forall>m\<in>set pre. find ?pos (get_inputs m) = None \<and> resolves ?lm (\<lambda>i. True) m"
      and "find ?pos (get_inputs c) = Some inp" and "slot_link inp = Some k"
      and "?lm k = Some (src, a, b, c', d)" for pre c post inp k src a b c' d
  proof -
    from that(3,4,5) have "?stop c = Some (Inr (get_node_by_id w src))"
      by (simp add: positive_source_find link_source_def)
    from first_outcome_stop[OF before[OF that(2)] this] r that(1) show ?thesis by simp
  qed
  have 2: "bfs_upstream_to_positive_source w start = Some (Inl (KeyError k))"
    if "ord = pre @ c # post"
      and "\<forall>m\<in>set pre. find ?pos (get_inputs m) = None \<and> resolves ?lm (\<lambda>i. True) m"
      and "find ?pos (get_inputs c) = Some inp" and "slot_link inp = Some k"
      and "?lm k = None" for pre c post inp k
  proof -
    from that(3,4,5) have "?stop c = Some (Inl (KeyError k))"
      by (simp add: positive_source_find link_source_def)
    from first_outcome_stop[OF before[OF that(2)] this] r that(1) show ?thesis by simp
  qed
  have 3: "bfs_upstream_to_positive_source w start = Some (Inl (KeyError k))"
    if "ord = pre @ c # post"
      and "\<forall>m\<in>set pre. find ?pos (get_inputs m) = None \<and> resolves ?lm (\<lambda>i. True) m"
      and "find ?pos (get_inputs c) = None"
      and f: "find (\<lambda>i. \<exists>j. slot_link i = Some j \<and> ?lm j = None) (get_inputs c) = Some inp"
      and "slot_link inp = Some k" for pre c post inp k
  proof -
    from f have "find (\<lambda>i. True \<and> (\<exists>j. slot_link i = Some j \<and> ?lm j = None)) (get_inputs c) = Some inp"
      by simp
    from enqueue_preds_raises[where sel = "\<lambda>i. True", OF this that(5)]
    have "enqueue_preds w ?lm (\<lambda>i. True) (get_inputs c) = Inl (KeyError k)" .
    from first_outcome_raise[OF before[OF that(2)] nostop[OF that(3)] this] r that(1)
    show ?thesis by simp
  qed
  have 4: "bfs_upstream_to_positive_source w start = Some (Inr None)"
    if "\<forall>m\<in>set ord. find ?pos (get_inputs m) = None \<and> resolves ?lm (\<lambda>i. True) m"
    using first_outcome_none[OF before[OF that]] r by simp
  show ?thesis
  proof (intro exI[of _ ord] conjI allI impI)
    show "spec_bfs_order (\<lambda>i. True) w ?lm [start] [] = Some ord" by (rule o)
  next
    fix pre c post inp k src a b c' d
    assume "ord = pre @ c # post
          \<and> (\<forall>m\<in>set pre. find ?pos (get_inputs m) = None \<and> resolves ?lm (\<lambda>i. True) m)
          \<and> find ?pos (get_inputs c) = Some inp
          \<and> slot_link inp = Some k \<and> ?lm k = Some (src, a, b, c', d)"
    then show "bfs_upstream_to_positive_source w start = Some (Inr (get_node_by_id w src))"
      by (elim conjE) (rule 1, assumption+)
  next
    fix pre c post inp k
    assume "ord = pre @ c # post
          \<and> (\<forall>m\<in>set pre. find ?pos (get_inputs m) = None \<and> resolves ?lm (\<lambda>i. True) m)
          \<and> find ?pos (get_inputs c) = Some inp
          \<and> slot_link inp = Some k \<and> ?lm k = None \<and> k \<noteq> JNull"
    then show "bfs_upstream_to_positive_source w start = Some (Inl (KeyError k))"
      by (elim conjE) (rule 2, assumption+)
  next
    fix pre c post inp k
    assume "ord = pre @ c # post
          \<and> (\<forall>m\<in>set pre. find ?pos (get_inputs m) = None \<and> resolves ?lm (\<lambda>i. True) m)
          \<and> find ?pos (get_inputs c) = None
          \<and> find (\<lambda>i. \<exists>j. slot_link i = Some j \<and> ?lm j = None) (get_inputs c) = Some inp
          \<and> slot_link inp = Some k \<and> k \<noteq> JNull"
    then show "bfs_upstream_to_positive_source w start = Some (Inl (KeyError k))"
      by (elim conjE) (rule 3, assumption+)
  next
    assume "\<forall>m\<in>set ord. find ?pos (get_inputs m) = None \<and> resolves ?lm (\<lambda>i. True) m"
    then show "bfs_upstream_to_positive_source w start = Some (Inr None)" by (rule 4)
  qed
qed

theorem positive_search_first_positive_witness:
  "spec_bfs_order (\<lambda>i. True) pipeline (build_link_map pipeline) [decoder] []
     = Some ([decoder] @ sampler # [checkpoint, encoder])
   \<and> find (\<lambda>i. slot_name i = Some ''positive'' \<and> slot_link i \<noteq> None) (get_inputs decoder) = None
   \<and> resolves (build_link_map pipeline) (\<lambda>i. True) decoder
   \<and> find (\<lambda>i. slot_name i = Some ''positive'' \<and> slot_link i \<noteq> None) (get_inputs sampler)
       = Some (mk_slot ''positive'' ''CONDITIONING'' (Some (JInt 12)))
   \<and> build_link_map pipeline (JInt 12) = Some (JInt 1, JInt 0, JInt 2, JInt 0, JStr ''CONDITIONING'')
   \<and> get_node_by_id pipeline (JInt 1) = Some encoder
   \<and> bfs_upstream_to_positive_source pipeline decoder = Some (Inr (Some encoder))
   \<and> encoder \<noteq> sampler
   \<and> spec_bfs_order (\<lambda>i. True) cut_pipeline (build_link_map cut_pipeline) [decoder] []
       = Some ([decoder] @ sampler # [])
   \<and> resolves (build_link_map cut_pipeline) (\<lambda>i. True) decoder
   \<and> build_link_map cut_pipeline (JInt 12) = None
   \<and> bfs_upstream_to_positive_source cut_pipeline decoder = Some (Inl (KeyError (JInt 12)))
   \<and> spec_bfs_order (\<lambda>i. True) branches (build_link_map branches) [combine] []
       = Some ([] @ combine # [encoder_b, reroute, encoder_a])
   \<and> find (\<lambda>i. slot_name i = Some ''positive'' \<and> slot_link i \<noteq> None) (get_inputs combine) = None
   \<and> find (\<lambda>i. \<exists>j. slot_link i = Some j \<and> build_link_map branches j = None) (get_inputs combine)
       = Some (mk_slot ''image'' ''IMAGE'' (Some (JInt 99)))
   \<and> bfs_upstream_to_positive_source branches combine = Some (Inl (KeyError (JInt 99)))
   \<and> spec_bfs_order (\<lambda>i. True) cyc (build_link_map cyc) [cyc1] [] = Some [cyc1, cyc2, cyc3]
   \<and> list_all (\<lambda>m. find (\<lambda>i. slot_name i = Some ''positive'' \<and> slot_link i \<noteq> None) (get_inputs m) = None
                 \<and> resolves (build_link_map cyc) (\<lambda>i. True) m) [cyc1, cyc2, cyc3]
   \<and> bfs_upstream_to_positive_source cyc cyc1 = Some (Inr None)"
proof -
  let ?pos = "\<lambda>i. slot_name i = Some ''positive'' \<and> slot_link i \<noteq> None"
  have o: "spec_bfs_order (\<lambda>i. True) pipeline (build_link_map pipeline) [decoder] []
     = Some ([decoder] @ sampler # [checkpoint, encoder])" by code_simp
  have fd: "find ?pos (get_inputs decoder) = None"
    by (simp add: decoder_def mk_node_def mk_slot_def get_inputs_def)
  have m13: "build_link_map pipeline (JInt 13) \<noteq> None"
    by (simp add: build_link_map_def pipeline_def add_link_def mk_link_def)
  have rd: "resolves (build_link_map pipeline) (\<lambda>i. True) decoder"
    using m13 by (simp add: resolves_def decoder_def mk_node_def mk_slot_def get_inputs_def)
  have fs: "find ?pos (get_inputs sampler) = Some (mk_slot ''positive'' ''CONDITIONING'' (Some (JInt 12)))"
    by (simp add: sampler_def mk_node_def mk_slot_def get_inputs_def)
  have l: "slot_link (mk_slot ''positive'' ''CONDITIONING'' (Some (JInt 12))) = Some (JInt 12)"
    by (simp add: mk_slot_def)
  have m: "build_link_map pipeline (JInt 12) = Some (JInt 1, JInt 0, JInt 2, JInt 0, JStr ''CONDITIONING'')"
    by (simp add: build_link_map_def pipeline_def add_link_def mk_link_def)
  have g: "get_node_by_id pipeline (JInt 1) = Some encoder"
    by (simp add: get_node_by_id_def pipeline_def encoder_def mk_node_def)
  have ne: "encoder \<noteq> sampler" by (simp add: encoder_def sampler_def mk_node_def)
  from positive_search_first_positive[of pipeline decoder] obtain ord where
    o': "spec_bfs_order (\<lambda>i. True) pipeline (build_link_map pipeline) [decoder] [] = Some ord"
    and c1: "\<forall>pre c post inp k src a b c' d.
          ord = pre @ c # post
          \<and> (\<forall>m\<in>set pre. find ?pos (get_inputs m) = None
                \<and> resolves (build_link_map pipeline) (\<lambda>i. True) m)
          \<and> find ?pos (get_inputs c) = Some inp
          \<and> slot_link inp = Some k \<and> build_link_map pipeline k = Some (src, a, b, c', d) \<longrightarrow>
          bfs_upstream_to_positive_source pipeline decoder = Some (Inr (get_node_by_id pipeline src))"
    by (elim exE conjE) (rule that, assumption+)
  from o o' have ord: "ord = [decoder] @ sampler # [checkpoint, encoder]" by simp
  have pre: "\<forall>m\<in>set [decoder]. find ?pos (get_inputs m) = None
                \<and> resolves (build_link_map pipeline) (\<lambda>i. True) m"
    using fd rd by simp
  from c1[rule_format, of "[decoder]" sampler "[checkpoint, encoder]"
      "mk_slot ''positive'' ''CONDITIONING'' (Some (JInt 12))" "JInt 12" "JInt 1" "JInt 0" "JInt 2"
      "JInt 0" "JStr ''CONDITIONING''"] ord pre fs l m
  have "bfs_upstream_to_positive_source pipeline decoder = Some (Inr (get_node_by_id pipeline (JInt 1)))"
    by blast
  with g have r: "bfs_upstream_to_positive_source pipeline decoder = Some (Inr (Some encoder))"
    by simp
  have o2: "spec_bfs_order (\<lambda>i. True) cut_pipeline (build_link_map cut_pipeline) [decoder] []
       = Some ([decoder] @ sampler # [])" by code_simp
  have n13: "build_link_map cut_pipeline (JInt 13) \<noteq> None"
    by (simp add: build_link_map_def cut_pipeline_def add_link_def mk_link_def)
  have rd2: "resolves (build_link_map cut_pipeline) (\<lambda>i. True) decoder"
    using n13 by (simp add: resolves_def decoder_def mk_node_def mk_slot_def get_inputs_def)
  have n12: "build_link_map cut_pipeline (JInt 12) = None"
    by (simp add: build_link_map_def cut_pipeline_def add_link_def mk_link_def)
  from positive_search_first_positive[of cut_pipeline decoder] obtain ord2 where
    o2': "spec_bfs_order (\<lambda>i. True) cut_pipeline (build_link_map cut_pipeline) [decoder] [] = Some ord2"
    and c2: "\<forall>pre c post inp k.
          ord2 = pre @ c # post
          \<and> (\<forall>m\<in>set pre. find ?pos (get_inputs m) = None
                \<and> resolves (build_link_map cut_pipeline) (\<lambda>i. True) m)
          \<and> find ?pos (get_inputs c) = Some inp
          \<and> slot_link inp = Some k \<and> build_link_map cut_pipeline k = None \<and> k \<noteq> JNull \<longrightarrow>
          bfs_upstream_to_positive_source cut_pipeline decoder = Some (Inl (KeyError k))"
    by (elim exE conjE) (rule that, assumption+)
  from o2 o2' have ord2: "ord2 = [decoder] @ sampler # []" by simp
  have pre2: "\<forall>m\<in>set [decoder]. find ?pos (get_inputs m) = None
                \<and> resolves (build_link_map cut_pipeline) (\<lambda>i. True) m"
    using fd rd2 by simp
  have nn: "JInt 12 \<noteq> JNull" by simp
  from c2[rule_format, of "[decoder]" sampler "[]"
      "mk_slot ''positive'' ''CONDITIONING'' (Some (JInt 12))" "JInt 12"] ord2 pre2 fs l n12 nn
  have r2: "bfs_upstream_to_positive_source cut_pipeline decoder = Some (Inl (KeyError (JInt 12)))"
    by blast
  have o3: "spec_bfs_order (\<lambda>i. True) branches (build_link_map branches) [combine] []
       = Some ([] @ combine # [encoder_b, reroute, encoder_a])" by code_simp
  have fc: "find ?pos (get_inputs combine) = None"
    by (simp add: combine_def mk_node_def mk_slot_def get_inputs_def)
  have m99: "build_link_map branches (JInt 99) = None"
    by (simp add: build_link_map_def branches_def add_link_def mk_link_def)
  have fm: "find (\<lambda>i. \<exists>j. slot_link i = Some j \<and> build_link_map branches j = None) (get_inputs combine)
       = Some (mk_slot ''image'' ''IMAGE'' (Some (JInt 99)))"
    using m99 by (simp add: combine_def mk_node_def mk_slot_def get_inputs_def)
  have l3: "slot_link (mk_slot ''image'' ''IMAGE'' (Some (JInt 99))) = Some (JInt 99)"
    by (simp add: mk_slot_def)
  from positive_search_first_positive[of branches combine] obtain ord3 where
    o3': "spec_bfs_order (\<lambda>i. True) branches (build_link_map branches) [combine] [] = Some ord3"
    and c3: "\<forall>pre c post inp k.
          ord3 = pre @ c # post
          \<and> (\<forall>m\<in>set pre. find ?pos (get_inputs m) = None
                \<and> resolves (build_link_map branches) (\<lambda>i. True) m)
          \<and> find ?pos (get_inputs c) = None
          \<and> find (\<lambda>i. \<exists>j. slot_link i = Some j \<and> build_link_map branches j = None) (get_inputs c)
              = Some inp
          \<and> slot_link inp = Some k \<and> k \<noteq> JNull \<longrightarrow>
          bfs_upstream_to_positive_source branches combine = Some (Inl (KeyError k))"
    by (elim exE conjE) (rule that, assumption+)
  from o3 o3' have ord3: "ord3 = [] @ combine # [encoder_b, reroute, encoder_a]" by simp
  have pre3: "\<forall>m\<in>set []. find ?pos (get_inputs m) = None
                \<and> resolves (build_link_map branches) (\<lambda>i. True) m" by simp
  have nn3: "JInt 99 \<noteq> JNull" by simp
  from c3[rule_format, of "[]" combine "[encoder_b, reroute, encoder_a]"
      "mk_slot ''image'' ''IMAGE'' (Some (JInt 99))" "JInt 99"] ord3 pre3 fc fm l3 nn3
  have r3: "bfs_upstream_to_positive_source branches combine = Some (Inl (KeyError (JInt 99)))"
    by blast
  have o4: "spec_bfs_order (\<lambda>i. True) cyc (build_link_map cyc) [cyc1] [] = Some [cyc1, cyc2, cyc3]"
    by code_simp
  have lmc: "build_link_map cyc (JInt 12) \<noteq> None" "build_link_map cyc (JInt 13) \<noteq> None"
    "build_link_map cyc (JInt 21) \<noteq> None" "build_link_map cyc (JInt 32) \<noteq> None"
    by (simp_all add: build_link_map_def cyc_def add_link_def mk_link_def)
  have a4: "list_all (\<lambda>m. find ?pos (get_inputs m) = None
                 \<and> resolves (build_link_map cyc) (\<lambda>i. True) m) [cyc1, cyc2, cyc3]"
    using lmc
    by (simp add: resolves_def cyc1_def cyc2_def cyc3_def mk_node_def mk_slot_def get_inputs_def)
  from positive_search_first_positive[of cyc cyc1] obtain ord4 where
    o4': "spec_bfs_order (\<lambda>i. True) cyc (build_link_map cyc) [cyc1] [] = Some ord4"
    and c4: "(\<forall>m\<in>set ord4. find ?pos (get_inputs m) = None
                \<and> resolves (build_link_map cyc) (\<lambda>i. True) m) \<longrightarrow>
          bfs_upstream_to_positive_source cyc cyc1 = Some (Inr None)"
    by (elim exE conjE) (rule that, assumption+)
  from o4 o4' have ord4: "ord4 = [cyc1, cyc2, cyc3]" by simp
  from a4 have "\<forall>m\<in>set [cyc1, cyc2, cyc3]. find ?pos (get_inputs m) = None
                \<and> resolves (build_link_map cyc) (\<lambda>i. True) m"
    by (simp only: list_all_iff)
  with c4 ord4 have r4: "bfs_upstream_to_positive_source cyc cyc1 = Some (Inr None)" by blast
  from o fd rd fs m g r ne o2 rd2 n12 r2 o3 fc fm r3 o4 a4 r4 show ?thesis
    by (simp only: simp_thms)
qed

text \<open>
  Claim C6 says that, for every workflow, the text-encoder search returns the first node
  in breadth-first order whose type contains the text-encoder marker.  From node \<open>loose\<close>
  of workflow \<open>branches\<close> the breadth-first order over the allow-listed links is
  \<open>loose\<close>, \<open>reroute\<close>, \<open>encoder_a\<close>, and \<open>encoder_a\<close> is its first text encoder; but the second
  conditioning input of \<open>loose\<close> carries link id 77, which the link table does not hold,
  and the search ends in \<^verbatim>\<open>KeyError\<close>.
\<close>

theorem clip_search_counterexample:
  "spec_bfs_order allowed_type branches (build_link_map branches) [loose] []
     = Some [loose, reroute, encoder_a]
   \<and> \<not> is_clip loose \<and> \<not> is_clip reroute \<and> is_clip encoder_a
   \<and> find_upstream_clip_encode branches loose = Some (Inl (KeyError (JInt 77)))"
proof -
  have 1: "spec_bfs_order allowed_type branches (build_link_map branches) [loose] []
     = Some [loose, reroute, encoder_a]" by code_simp
  have 2: "\<not> is_clip loose" by (simp add: is_clip_def loose_def mk_node_def get_type_def)
  have 3: "\<not> is_clip reroute" by (simp add: is_clip_def reroute_def mk_node_def get_type_def)
  have 4: "is_clip encoder_a" by (simp add: is_clip_def encoder_a_def mk_node_def get_type_def)
  have 5: "find_upstream_clip_encode branches loose = Some (Inl (KeyError (JInt 77)))"
    by code_simp
  from 1 2 3 4 5 show ?thesis by simp
qed

text \<open>
  Claim C6 as amended.  Let \<open>ord\<close> be the breadth-first order of the nodes upstream of
  the start node through the input slots whose declared type is \<^verbatim>\<open>CONDITIONING\<close>,
  \<^verbatim>\<open>CLIP\<close>, \<^verbatim>\<open>STRING\<close> or \<^verbatim>\<open>any\<close> (FIFO, each node id once); slots of any other type
  contribute nothing to it, and the expansion of a node looks up the links of its
  allow-listed slots only.  The text-encoder search returns the first node of \<open>ord\<close>
  whose type contains \<^verbatim>\<open>CLIPTextEncode\<close>, provided every node before it carries, on its
  allow-listed slots, only link ids that the link table holds; the stop test comes
  before the expansion, so the links of the returned node itself do not matter, and the
  link ids on slots of other types never matter.  If a node that is no text encoder and
  precedes every text encoder carries, on an allow-listed slot, an id the table
  does not hold, the search raises \<^verbatim>\<open>KeyError\<close> of the first such id of that node.  If
  \<open>ord\<close> has no text encoder and all allow-listed ids are in the table, the search returns
  absent.  (What a null link value does is left open.)
\<close>

theorem clip_search_first_encoder:
  "\<exists>ord. spec_bfs_order allowed_type w (build_link_map w) [start] [] = Some ord
     \<and> (\<forall>pre c post.
          ord = pre @ c # post \<and> is_clip c
          \<and> (\<forall>m\<in>set pre. \<not> is_clip m \<and> resolves (build_link_map w) allowed_type m) \<longrightarrow>
          find_upstream_clip_encode w start = Some (Inr (Some c)))
     \<and> (\<forall>pre c post inp k.
          ord = pre @ c # post \<and> \<not> is_clip c
          \<and> (\<forall>m\<in>set pre. \<not> is_clip m \<and> resolves (build_link_map w) allowed_type m)
          \<and> find (\<lambda>i. allowed_type i \<and> (\<exists>j. slot_link i = Some j \<and> build_link_map w j = None))
                (get_inputs c) = Some inp
          \<and> slot_link inp = Some k \<and> k \<noteq> JNull \<longrightarrow>
          find_upstream_clip_encode w start = Some (Inl (KeyError k)))
     \<and> ((\<forall>m\<in>set ord. \<not> is_clip m \<and> resolves (build_link_map w) allowed_type m) \<longrightarrow>
          find_upstream_clip_encode w start = Some (Inr None))
     \<and> (\<forall>inps. spec_preds w (build_link_map w) allowed_type inps
           = spec_preds w (build_link_map w) (\<lambda>i. True)
               (filter (\<lambda>i. slot_type i \<in> {Some ''CONDITIONING'', Some ''CLIP'', Some ''STRING'', Some ''any''})
                  inps))
     \<and> (\<forall>inps. enqueue_preds w (build_link_map w) allowed_type inps
           = enqueue_preds w (build_link_map w) (\<lambda>i. True)
               (filter (\<lambda>i. slot_type i \<in> {Some ''CONDITIONING'', Some ''CLIP'', Some ''STRING'', Some ''any''})
                  inps))"
proof -
  let ?lm = "build_link_map w"
  from bfs_loop_order[where stop = clip_stop and sel = allowed_type and w = w and lm = ?lm
      and q = "[start]" and seen = "[]"]
  obtain ord s where
    o: "spec_bfs_order allowed_type w ?lm [start] [] = Some ord"
    and l: "clip_loop w [start] [] = Some (first_outcome clip_stop allowed_type w ?lm ord, s)"
    unfolding clip_loop_def by blast
  from l have r: "find_upstream_clip_encode w start
      = Some (first_outcome clip_stop allowed_type w ?lm ord)"
    by (simp add: find_upstream_clip_encode_def)
  have before: "\<forall>m\<in>set pre. clip_stop m = None \<and> resolves ?lm allowed_type m"
    if "\<forall>m\<in>set pre. \<not> is_clip m \<and> resolves ?lm allowed_type m" for pre
    using that by (simp add: clip_stop_def)
  have 1: "find_upstream_clip_encode w start = Some (Inr (Some c))"
    if "ord = pre @ c # post" "is_clip c"
      and "\<forall>m\<in>set pre. \<not> is_clip m \<and> resolves ?lm allowed_type m" for pre c post
  proof -
    from that(2) have "clip_stop c = Some (Inr (Some c))" by (simp add: clip_stop_def)
    from first_outcome_stop[OF before[OF that(3)] this] r that(1) show ?thesis by simp
  qed
  have 2: "find_upstream_clip_encode w start = Some (Inl (KeyError k))"
    if "ord = pre @ c # post" "\<not> is_clip c"
      and "\<forall>m\<in>set pre. \<not> is_clip m \<and> resolves ?lm allowed_type m"
      and f: "find (\<lambda>i. allowed_type i \<and> (\<exists>j. slot_link i = Some j \<and> ?lm j = None))
                (get_inputs c) = Some inp"
      and "slot_link inp = Some k" for pre c post inp k
  proof -
    from that(2) have st: "clip_stop c = None" by (simp add: clip_stop_def)
    from enqueue_preds_raises[where sel = allowed_type, OF f that(5)]
    have "enqueue_preds w ?lm allowed_type (get_inputs c) = Inl (KeyError k)" .
    from first_outcome_raise[OF before[OF that(3)] st this] r that(1) show ?thesis by simp
  qed
  have 3: "find_upstream_clip_encode w start = Some (Inr None)"
    if "\<forall>m\<in>set ord. \<not> is_clip m \<and> resolves ?lm allowed_type m"
    using first_outcome_none[OF before[OF that]] r by simp
  have 4: "spec_preds w ?lm allowed_type inps
           = spec_preds w ?lm (\<lambda>i. True)
               (filter (\<lambda>i. slot_type i \<in> {Some ''CONDITIONING'', Some ''CLIP'', Some ''STRING'', Some ''any''})
                  inps)" for inps
    by (subst spec_preds_filter) (simp add: allowed_type_def[abs_def])
  have 5: "enqueue_preds w ?lm allowed_type inps
           = enqueue_preds w ?lm (\<lambda>i. True)
               (filter (\<lambda>i. slot_type i \<in> {Some ''CONDITIONING'', Some ''CLIP'', Some ''STRING'', Some ''any''})
                  inps)" for inps
    by (subst enqueue_preds_filter) (simp add: allowed_type_def[abs_def])
  show ?thesis
  proof (intro exI[of _ ord] conjI allI impI)
    show "spec_bfs_order allowed_type w ?lm [start] [] = Some ord" by (rule o)
  next
    fix pre c post
    assume "ord = pre @ c # post \<and> is_clip c
          \<and> (\<forall>m\<in>set pre. \<not> is_clip m \<and> resolves ?lm allowed_type m)"
    then show "find_upstream_clip_encode w start = Some (Inr (Some c))"
      by (elim conjE) (rule 1, assumption+)
  next
    fix pre c post inp k
    assume "ord = pre @ c # post \<and> \<not> is_clip c
          \<and> (\<forall>m\<in>set pre. \<not> is_clip m \<and> resolves ?lm allowed_type m)
          \<and> find (\<lambda>i. allowed_type i \<and> (\<exists>j. slot_link i = Some j \<and> ?lm j = None))
                (get_inputs c) = Some inp
          \<and> slot_link inp = Some k \<and> k \<noteq> JNull"
    then show "find_upstream_clip_encode w start = Some (Inl (KeyError k))"
      by (elim conjE) (rule 2, assumption+)
  next
    assume "\<forall>m\<in>set ord. \<not> is_clip m \<and> resolves ?lm allowed_type m"
    then show "find_upstream_clip_encode w start = Some (Inr None)" by (rule 3)
  next
    fix inps
    show "spec_preds w ?lm allowed_type inps
           = spec_preds w ?lm (\<lambda>i. True)
               (filter (\<lambda>i. slot_type i \<in> {Some ''CONDITIONING'', Some ''CLIP'', Some ''STRING'', Some ''any''})
                  inps)" by (rule 4)
  next
    fix inps
    show "enqueue_preds w ?lm allowed_type inps
           = enqueue_preds w ?lm (\<lambda>i. True)
               (filter (\<lambda>i. slot_type i \<in> {Some ''CONDITIONING'', Some ''CLIP'', Some ''STRING'', Some ''any''})
                  inps)" by (rule 5)
  qed
qed

theorem clip_search_first_encoder_witness:
  "spec_bfs_order allowed_type branches (build_link_map branches) [combine] []
     = Some ([combine, reroute] @ encoder_a # [])
   \<and> is_clip encoder_a \<and> \<not> is_clip combine \<and> \<not> is_clip reroute
   \<and> resolves (build_link_map branches) allowed_type combine
   \<and> resolves (build_link_map branches) allowed_type reroute
   \<and> slot_link (hd (get_inputs combine)) = Some (JInt 99)
   \<and> build_link_map branches (JInt 99) = None
   \<and> find_upstream_clip_encode branches combine = Some (Inr (Some encoder_a))
   \<and> spec_bfs_order allowed_type dangling (build_link_map dangling) [dangling_text] []
       = Some ([] @ dangling_text
                # [mk_node 31 ''PrimitiveString'' None [] (Some (WList [WStr ''fallback text'']))])
   \<and> \<not> is_clip dangling_text
   \<and> find (\<lambda>i. allowed_type i \<and> (\<exists>j. slot_link i = Some j \<and> build_link_map dangling j = None))
         (get_inputs dangling_text) = Some (mk_slot ''text'' ''STRING'' (Some (JInt 99)))
   \<and> find_upstream_clip_encode dangling dangling_text = Some (Inl (KeyError (JInt 99)))
   \<and> spec_bfs_order allowed_type cyc (build_link_map cyc) [cyc1] [] = Some [cyc1, cyc2, cyc3]
   \<and> list_all (\<lambda>m. \<not> is_clip m \<and> resolves (build_link_map cyc) allowed_type m) [cyc1, cyc2, cyc3]
   \<and> find_upstream_clip_encode cyc cyc1 = Some (Inr None)"
proof -
  have o: "spec_bfs_order allowed_type branches (build_link_map branches) [combine] []
     = Some ([combine, reroute] @ encoder_a # [])" by code_simp
  have a: "is_clip encoder_a" by (simp add: is_clip_def encoder_a_def mk_node_def get_type_def)
  have nc: "\<not> is_clip combine" by (simp add: is_clip_def combine_def mk_node_def get_type_def)
  have nr: "\<not> is_clip reroute" by (simp add: is_clip_def reroute_def mk_node_def get_type_def)
  have m32: "build_link_map branches (JInt 32) \<noteq> None"
    by (simp add: build_link_map_def branches_def add_link_def mk_link_def)
  have m33: "build_link_map branches (JInt 33) \<noteq> None"
    by (simp add: build_link_map_def branches_def add_link_def mk_link_def)
  have rc: "resolves (build_link_map branches) allowed_type combine"
    using m32
    by (simp add: resolves_def allowed_type_def combine_def mk_node_def mk_slot_def get_inputs_def)
  have rr: "resolves (build_link_map branches) allowed_type reroute"
    using m33
    by (simp add: resolves_def allowed_type_def reroute_def mk_node_def mk_slot_def get_inputs_def)
  have d: "slot_link (hd (get_inputs combine)) = Some (JInt 99)"
    by (simp add: combine_def mk_node_def mk_slot_def get_inputs_def)
  have m99: "build_link_map branches (JInt 99) = None"
    by (simp add: build_link_map_def branches_def add_link_def mk_link_def)
  from clip_search_first_encoder[of branches combine] obtain ord where
    o': "spec_bfs_order allowed_type branches (build_link_map branches) [combine] [] = Some ord"
    and c1: "\<forall>pre c post.
          ord = pre @ c # post \<and> is_clip c
          \<and> (\<forall>m\<in>set pre. \<not> is_clip m \<and> resolves (build_link_map branches) allowed_type m) \<longrightarrow>
          find_upstream_clip_encode branches combine = Some (Inr (Some c))"
    by (elim exE conjE) (rule that, assumption+)
  from o o' have ord: "ord = [combine, reroute] @ encoder_a # []" by simp
  have pre: "\<forall>m\<in>set [combine, reroute]. \<not> is_clip m \<and> resolves (build_link_map branches) allowed_type m"
    using nc nr rc rr by simp
  from c1[rule_format, of "[combine, reroute]" encoder_a "[]"] ord a pre
  have r: "find_upstream_clip_encode branches combine = Some (Inr (Some encoder_a))"
    by blast
  have o2: "spec_bfs_order allowed_type dangling (build_link_map dangling) [dangling_text] []
       = Some ([] @ dangling_text
                # [mk_node 31 ''PrimitiveString'' None [] (Some (WList [WStr ''fallback text'']))])"
    by code_simp
  have nd: "\<not> is_clip dangling_text"
    by (simp add: is_clip_def dangling_text_def mk_node_def get_type_def)
  have d99: "build_link_map dangling (JInt 99) = None"
    by (simp add: build_link_map_def dangling_def add_link_def mk_link_def)
  have fm: "find (\<lambda>i. allowed_type i \<and> (\<exists>j. slot_link i = Some j \<and> build_link_map dangling j = None))
         (get_inputs dangling_text) = Some (mk_slot ''text'' ''STRING'' (Some (JInt 99)))"
    using d99 by (simp add: allowed_type_def dangling_text_def mk_node_def mk_slot_def get_inputs_def)
  have l2: "slot_link (mk_slot ''text'' ''STRING'' (Some (JInt 99))) = Some (JInt 99)"
    by (simp add: mk_slot_def)
  from clip_search_first_encoder[of dangling dangling_text] obtain ord2 where
    o2': "spec_bfs_order allowed_type dangling (build_link_map dangling) [dangling_text] [] = Some ord2"
    and c2: "\<forall>pre c post inp k.
          ord2 = pre @ c # post \<and> \<not> is_clip c
          \<and> (\<forall>m\<in>set pre. \<not> is_clip m \<and> resolves (build_link_map dangling) allowed_type m)
          \<and> find (\<lambda>i. allowed_type i \<and> (\<exists>j. slot_link i = Some j \<and> build_link_map dangling j = None))
                (get_inputs c) = Some inp
          \<and> slot_link inp = Some k \<and> k \<noteq> JNull \<longrightarrow>
          find_upstream_clip_encode dangling dangling_text = Some (Inl (KeyError k))"
    by (elim exE conjE) (rule that, assumption+)
  from o2 o2' have ord2: "ord2 = [] @ dangling_text
      # [mk_node 31 ''PrimitiveString'' None [] (Some (WList [WStr ''fallback text'']))]" by simp
  have pre2: "\<forall>m\<in>set []. \<not> is_clip m \<and> resolves (build_link_map dangling) allowed_type m" by simp
  have nn: "JInt 99 \<noteq> JNull" by simp
  from c2[rule_format, of "[]" dangling_text
      "[mk_node 31 ''PrimitiveString'' None [] (Some (WList [WStr ''fallback text'']))]"
      "mk_slot ''text'' ''STRING'' (Some (JInt 99))" "JInt 99"] ord2 nd pre2 fm l2 nn
  have r2: "find_upstream_clip_encode dangling dangling_text = Some (Inl (KeyError (JInt 99)))"
    by blast
  have o3: "spec_bfs_order allowed_type cyc (build_link_map cyc) [cyc1] [] = Some [cyc1, cyc2, cyc3]"
    by code_simp
  have lmc: "build_link_map cyc (JInt 12) \<noteq> None" "build_link_map cyc (JInt 13) \<noteq> None"
    "build_link_map cyc (JInt 21) \<noteq> None" "build_link_map cyc (JInt 32) \<noteq> None"
    by (simp_all add: build_link_map_def cyc_def add_link_def mk_link_def)
  have a3: "list_all (\<lambda>m. \<not> is_clip m \<and> resolves (build_link_map cyc) allowed_type m)
      [cyc1, cyc2, cyc3]"
    using lmc
    by (simp add: resolves_def is_clip_def get_type_def cyc1_def cyc2_def cyc3_def mk_node_def
        mk_slot_def get_inputs_def)
  from clip_search_first_encoder[of cyc cyc1] obtain ord3 where
    o3': "spec_bfs_order allowed_type cyc (build_link_map cyc) [cyc1] [] = Some ord3"
    and c3: "(\<forall>m\<in>set ord3. \<not> is_clip m \<and> resolves (build_link_map cyc) allowed_type m) \<longrightarrow>
          find_upstream_clip_encode cyc cyc1 = Some (Inr None)"
    by (elim exE conjE) (rule that, assumption+)
  from o3 o3' have ord3: "ord3 = [cyc1, cyc2, cyc3]" by simp
  from a3 have "\<forall>m\<in>set [cyc1, cyc2, cyc3]. \<not> is_clip m \<and> resolves (build_link_map cyc) allowed_type m"
    by (simp only: list_all_iff)
  with c3 ord3 have r3: "find_upstream_clip_encode cyc cyc1 = Some (Inr None)" by blast
  from o a nc nr rc rr d m99 r o2 nd fm r2 o3 a3 r3 show ?thesis by (simp only: simp_thms)
qed

section \<open>Link ids that the link table does not hold\<close>

text \<open>
  Claim C1 says that a link id carried by an input slot but absent from the link table
  resolves as "no link" and that the string resolver then falls through to its next
  rule.  The code subscripts the link table without a guard: in workflow \<open>dangling\<close> the
  \<^verbatim>\<open>text\<close> slot of the start node carries id 99, no link record has that id, a second
  \<^verbatim>\<open>STRING\<close> slot would lead to a literal, and the resolver ends in \<^verbatim>\<open>KeyError\<close>.
\<close>

theorem dangling_link_counterexample:
  "slot_link (hd (get_inputs dangling_text)) = Some (JInt 99)
   \<and> build_link_map dangling (JInt 99) = None
   \<and> extract_string_value_recursive dangling dangling_text = Some (Inl (KeyError (JInt 99)))"
proof -
  have 1: "slot_link (hd (get_inputs dangling_text)) = Some (JInt 99)"
    by (simp add: dangling_text_def mk_node_def mk_slot_def get_inputs_def)
  have 2: "build_link_map dangling (JInt 99) = None"
    by (simp add: build_link_map_def dangling_def add_link_def mk_link_def)
  have 3: "extract_string_value_recursive dangling dangling_text = Some (Inl (KeyError (JInt 99)))"
    by code_simp
  from 1 2 3 show ?thesis by simp
qed

text \<open>
  Claim C1 as amended.  A link id that the link table does not hold raises
  \<^verbatim>\<open>KeyError\<close> out of the traversal that follows the slot, and nothing falls through:
  \<^item> in the string resolver, once rules 1 and 2 have not returned, at the first slot named
    \<^verbatim>\<open>text\<close> with a link attribute (rule 3) and, when there is no such slot, at the first
    slot typed \<^verbatim>\<open>STRING\<close> with a link attribute (rule 4);
  \<^item> in the conditioning search, at the start node's first linked \<^verbatim>\<open>positive\<close> slot and,
    when it has none, at its first linked slot whose id is missing;
  \<^item> in the text-encoder search, at the first allow-listed slot of a start node that is
    no text encoder whose id is missing.
\<close>

theorem dangling_link_raises:
  "(clip_inline n = Inr None \<and> widget_string n = None
      \<and> find (\<lambda>i. slot_name i = Some ''text'' \<and> slot_link i \<noteq> None) (get_inputs n) = Some i
      \<and> slot_link i = Some k \<and> build_link_map w k = None \<longrightarrow>
      extract_string_value_recursive w n = Some (Inl (KeyError k)))
   \<and> (clip_inline n = Inr None \<and> widget_string n = None
      \<and> find (\<lambda>i. slot_name i = Some ''text'' \<and> slot_link i \<noteq> None) (get_inputs n) = None
      \<and> find (\<lambda>i. slot_type i = Some ''STRING'' \<and> slot_link i \<noteq> None) (get_inputs n) = Some i
      \<and> slot_link i = Some k \<and> build_link_map w k = None \<longrightarrow>
      extract_string_value_recursive w n = Some (Inl (KeyError k)))
   \<and> (find (\<lambda>i. slot_name i = Some ''positive'' \<and> slot_link i \<noteq> None) (get_inputs n) = Some i
      \<and> slot_link i = Some k \<and> build_link_map w k = None \<longrightarrow>
      bfs_upstream_to_positive_source w n = Some (Inl (KeyError k)))
   \<and> (find (\<lambda>i. slot_name i = Some ''positive'' \<and> slot_link i \<noteq> None) (get_inputs n) = None
      \<and> find (\<lambda>i. \<exists>j. slot_link i = Some j \<and> build_link_map w j = None) (get_inputs n) = Some i
      \<and> slot_link i = Some k \<longrightarrow>
      bfs_upstream_to_positive_source w n = Some (Inl (KeyError k)))
   \<and> (\<not> is_clip n
      \<and> find (\<lambda>i. allowed_type i \<and> (\<exists>j. slot_link i = Some j \<and> build_link_map w j = None))
            (get_inputs n) = Some i
      \<and> slot_link i = Some k \<longrightarrow>
      find_upstream_clip_encode w n = Some (Inl (KeyError k)))"
proof -
  let ?lm = "build_link_map w"
  have absent: "link_source w ?lm k = Inl (KeyError k)" if "?lm k = None"
    using that by (simp add: link_source_def)
  have 1: "extract_string_value_recursive w n = Some (Inl (KeyError k))"
    if "clip_inline n = Inr None" "widget_string n = None"
      and f: "find (\<lambda>i. slot_name i = Some ''text'' \<and> slot_link i \<noteq> None) (get_inputs n) = Some i"
      and "slot_link i = Some k" "?lm k = None"
  proof -
    from f have "find (\<lambda>i. named_text i \<and> slot_link i \<noteq> None) (get_inputs n) = Some i"
      by (simp add: named_text_def[abs_def])
    from follow_first_raises[OF this that(4) absent[OF that(5)]]
    have "follow fuel w ?lm named_text v (get_inputs n) = Some (Inl (KeyError k), v)" for fuel v .
    with that(1,2) show ?thesis by (simp add: extract_unfold)
  qed
  have 2: "extract_string_value_recursive w n = Some (Inl (KeyError k))"
    if "clip_inline n = Inr None" "widget_string n = None"
      and f0: "find (\<lambda>i. slot_name i = Some ''text'' \<and> slot_link i \<noteq> None) (get_inputs n) = None"
      and f: "find (\<lambda>i. slot_type i = Some ''STRING'' \<and> slot_link i \<noteq> None) (get_inputs n) = Some i"
      and "slot_link i = Some k" "?lm k = None"
  proof -
    from f0 have "find (\<lambda>i. named_text i \<and> slot_link i \<noteq> None) (get_inputs n) = None"
      by (simp add: named_text_def[abs_def])
    from follow_none_selected[OF this]
    have a: "follow fuel w ?lm named_text v (get_inputs n) = Some (Inr None, v)" for fuel v .
    from f have "find (\<lambda>i. typed_string i \<and> slot_link i \<noteq> None) (get_inputs n) = Some i"
      by (simp add: typed_string_def[abs_def])
    from follow_first_raises[OF this that(5) absent[OF that(6)]]
    have b: "follow fuel w ?lm typed_string v (get_inputs n) = Some (Inl (KeyError k), v)" for fuel v .
    from that(1,2) a b show ?thesis by (simp add: extract_unfold)
  qed
  have 3: "bfs_upstream_to_positive_source w n = Some (Inl (KeyError k))"
    if f: "find (\<lambda>i. slot_name i = Some ''positive'' \<and> slot_link i \<noteq> None) (get_inputs n) = Some i"
      and "slot_link i = Some k" "?lm k = None"
  proof -
    from that have "positive_source w ?lm (get_inputs n) = Some (Inl (KeyError k))"
      by (simp add: positive_source_find absent)
    then have "positive_loop w [n] [] = Some (Inl (KeyError k), [] @ [node_id n])"
      unfolding positive_loop_def by (intro bfs_loop_stop) simp_all
    then show ?thesis by (simp add: bfs_upstream_to_positive_source_def)
  qed
  have 4: "bfs_upstream_to_positive_source w n = Some (Inl (KeyError k))"
    if f0: "find (\<lambda>i. slot_name i = Some ''positive'' \<and> slot_link i \<noteq> None) (get_inputs n) = None"
      and f: "find (\<lambda>i. \<exists>j. slot_link i = Some j \<and> build_link_map w j = None) (get_inputs n) = Some i"
      and "slot_link i = Some k"
  proof -
    from f0 have st: "positive_source w ?lm (get_inputs n) = None"
      by (simp add: positive_source_find)
    from f have "find (\<lambda>i. True \<and> (\<exists>j. slot_link i = Some j \<and> ?lm j = None)) (get_inputs n) = Some i"
      by simp
    from enqueue_preds_raises[where sel = "\<lambda>i. True", OF this that(3)]
    have e: "enqueue_preds w ?lm (\<lambda>i. True) (get_inputs n) = Inl (KeyError k)" .
    have "positive_loop w [n] [] = Some (Inl (KeyError k), [] @ [node_id n])"
      unfolding positive_loop_def
      by (subst bfs_loop_expand) (simp_all add: st e)
    then show ?thesis by (simp add: bfs_upstream_to_positive_source_def)
  qed
  have 5: "find_upstream_clip_encode w n = Some (Inl (KeyError k))"
    if "\<not> is_clip n"
      and f: "find (\<lambda>i. allowed_type i \<and> (\<exists>j. slot_link i = Some j \<and> build_link_map w j = None))
            (get_inputs n) = Some i"
      and "slot_link i = Some k"
  proof -
    from that(1) have st: "clip_stop n = None" by (simp add: clip_stop_def)
    from enqueue_preds_raises[where sel = allowed_type, OF f that(3)]
    have e: "enqueue_preds w ?lm allowed_type (get_inputs n) = Inl (KeyError k)" .
    have "clip_loop w [n] [] = Some (Inl (KeyError k), [] @ [node_id n])"
      unfolding clip_loop_def
      by (subst bfs_loop_expand) (simp_all add: st e)
    then show ?thesis by (simp add: find_upstream_clip_encode_def)
  qed
  from 1 2 3 4 5 show ?thesis by blast
qed

theorem dangling_link_raises_witness:
  "clip_inline dangling_text = Inr None \<and> widget_string dangling_text = None
   \<and> find (\<lambda>i. slot_name i = Some ''text'' \<and> slot_link i \<noteq> None) (get_inputs dangling_text)
       = Some (mk_slot ''text'' ''STRING'' (Some (JInt 99)))
   \<and> slot_link (mk_slot ''text'' ''STRING'' (Some (JInt 99))) = Some (JInt 99)
   \<and> build_link_map dangling (JInt 99) = None
   \<and> extract_string_value_recursive dangling dangling_text = Some (Inl (KeyError (JInt 99)))"
proof -
  have 1: "clip_inline dangling_text = Inr None"
    by (simp add: clip_inline_def is_clip_def dangling_text_def mk_node_def get_type_def)
  have 2: "widget_string dangling_text = None"
    by (simp add: widget_string_def dangling_text_def mk_node_def)
  have 3: "find (\<lambda>i. slot_name i = Some ''text'' \<and> slot_link i \<noteq> None) (get_inputs dangling_text)
       = Some (mk_slot ''text'' ''STRING'' (Some (JInt 99)))"
    by (simp add: dangling_text_def mk_node_def mk_slot_def get_inputs_def)
  have 4: "slot_link (mk_slot ''text'' ''STRING'' (Some (JInt 99))) = Some (JInt 99)"
    by (simp add: mk_slot_def)
  have 5: "build_link_map dangling (JInt 99) = None"
    by (simp add: build_link_map_def dangling_def add_link_def mk_link_def)
  from dangling_link_raises[of dangling_text "mk_slot ''text'' ''STRING'' (Some (JInt 99))"
      "JInt 99" dangling] 1 2 3 4 5
  have "extract_string_value_recursive dangling dangling_text = Some (Inl (KeyError (JInt 99)))"
    by blast
  with 1 2 3 4 5 show ?thesis by simp
qed
section \<open>Which functions can raise\<close>

text \<open>
  Claim C2 says that none of the four core functions ever raises, also on a workflow
  with dangling link ids.  Node \<open>combine\<close> of workflow \<open>branches\<close> has no \<^verbatim>\<open>positive\<close>
  slot, so the conditioning search started there expands it through all of its linked
  slots; the first one carries link id 99, which no link record has, and the search
  raises \<^verbatim>\<open>KeyError\<close>.
\<close>

theorem core_function_raises_counterexample:
  "build_link_map branches (JInt 99) = None
   \<and> bfs_upstream_to_positive_source branches combine = Some (Inl (KeyError (JInt 99)))"
proof -
  have 1: "build_link_map branches (JInt 99) = None"
    by (simp add: build_link_map_def branches_def add_link_def mk_link_def)
  have 2: "bfs_upstream_to_positive_source branches combine = Some (Inl (KeyError (JInt 99)))"
    by code_simp
  from 1 2 show ?thesis by simp
qed

text \<open>
  Claim C2 as amended, for a workflow of the data model (every node carries an integer
  id, and the attributes the code reads have the types the model gives them; the
  interpreter's recursion limit is left aside).
  \<^item> The save-node locator has no operation that fails on such a workflow: it returns
    absent or a save node of the workflow.
  \<^item> The conditioning search, the text-encoder search and the string resolver always
    return: a result, absent, or an exception.
  \<^item> An exception of a search is the \<^verbatim>\<open>KeyError\<close> of a link value that the link table
    does not hold, carried by a slot the search follows (any slot with a link attribute
    for the conditioning search, one of an allow-listed type for the text-encoder
    search), on a node \<open>m\<close> of its breadth-first order; no node before \<open>m\<close> in that order
    has an answer or such a slot.  In the conditioning search, if \<open>m\<close> has a
    \<^verbatim>\<open>positive\<close> slot with a link attribute, the value is that of the first one; in
    the text-encoder search \<open>m\<close> is no text encoder.
  \<^item> An exception of the resolver is such a \<^verbatim>\<open>KeyError\<close> for a slot named \<^verbatim>\<open>text\<close>
    or typed \<^verbatim>\<open>STRING\<close>, or the exception of rule 1's subscript \<^verbatim>\<open>wv[0]\<close>, on the
    start node or a node upstream of it through slots named \<^verbatim>\<open>text\<close> or typed
    \<^verbatim>\<open>STRING\<close>.
  \<^item> The per-document entry point always returns a pair, and an exception of its own
    link lookup, of either search or of the resolver is what it reports as its reason.
\<close>

theorem core_functions_raise_only_on_lookup:
  "(find_highest_order_saveimage w = None
      \<or> (\<exists>s. find_highest_order_saveimage w = Some s \<and> s \<in> set (wf_nodes w) \<and> is_saveimage s))
   \<and> (\<exists>r ord. bfs_upstream_to_positive_source w n = Some r
        \<and> spec_bfs_order (\<lambda>i. True) w (build_link_map w) [n] [] = Some ord
        \<and> (\<forall>e. r = Inl e \<longrightarrow>
             (\<exists>pre m post. ord = pre @ m # post
                \<and> (\<forall>x\<in>set pre.
                      find (\<lambda>i. slot_name i = Some ''positive'' \<and> slot_link i \<noteq> None) (get_inputs x) = None
                      \<and> resolves (build_link_map w) (\<lambda>i. True) x)
                \<and> lookup_fails (build_link_map w) (\<lambda>i. True) m e
                \<and> (\<forall>inp k.
                      find (\<lambda>i. slot_name i = Some ''positive'' \<and> slot_link i \<noteq> None) (get_inputs m) = Some inp
                      \<and> slot_link inp = Some k \<longrightarrow>
                      build_link_map w k = None \<and> e = KeyError k))))
   \<and> (\<exists>r ord. find_upstream_clip_encode w n = Some r
        \<and> spec_bfs_order allowed_type w (build_link_map w) [n] [] = Some ord
        \<and> (\<forall>e. r = Inl e \<longrightarrow>
             (\<exists>pre m post. ord = pre @ m # post
                \<and> (\<forall>x\<in>set pre. \<not> is_clip x \<and> resolves (build_link_map w) allowed_type x)
                \<and> \<not> is_clip m
                \<and> lookup_fails (build_link_map w) allowed_type m e)))
   \<and> (\<exists>r ord. extract_string_value_recursive w n = Some r
        \<and> spec_bfs_order text_source w (build_link_map w) [n] [] = Some ord
        \<and> (\<forall>e. r = Inl e \<longrightarrow>
             (\<exists>m. m \<in> set ord
                \<and> (clip_inline m = Inl e \<or> lookup_fails (build_link_map w) text_source m e))))
   \<and> (\<exists>p r. extract_final_positive_prompt_from_png doc = Some (p, r))
   \<and> (find_highest_order_saveimage w = Some save
        \<and> truthy_scalar (find_input_link_id save ''images'')
        \<and> link_source w (build_link_map w) (find_input_link_id save ''images'') = Inl e \<longrightarrow>
        extract_final_positive_prompt_from_png (WithWorkflow w) = Some (None, Some (ErrorReason e)))
   \<and> (find_highest_order_saveimage w = Some save
        \<and> truthy_scalar (find_input_link_id save ''images'')
        \<and> link_source w (build_link_map w) (find_input_link_id save ''images'') = Inr (Some start)
        \<and> bfs_upstream_to_positive_source w start = Some (Inl e) \<longrightarrow>
        extract_final_positive_prompt_from_png (WithWorkflow w) = Some (None, Some (ErrorReason e)))
   \<and> (find_highest_order_saveimage w = Some save
        \<and> truthy_scalar (find_input_link_id save ''images'')
        \<and> link_source w (build_link_map w) (find_input_link_id save ''images'') = Inr (Some start)
        \<and> bfs_upstream_to_positive_source w start = Some (Inr (Some pos))
        \<and> find_upstream_clip_encode w pos = Some (Inl e) \<longrightarrow>
        extract_final_positive_prompt_from_png (WithWorkflow w) = Some (None, Some (ErrorReason e)))
   \<and> (find_highest_order_saveimage w = Some save
        \<and> truthy_scalar (find_input_link_id save ''images'')
        \<and> link_source w (build_link_map w) (find_input_link_id save ''images'') = Inr (Some start)
        \<and> bfs_upstream_to_positive_source w start = Some (Inr (Some pos))
        \<and> find_upstream_clip_encode w pos = Some (Inr (Some enc))
        \<and> extract_string_value_recursive w enc = Some (Inl e) \<longrightarrow>
        extract_final_positive_prompt_from_png (WithWorkflow w) = Some (None, Some (ErrorReason e)))"
proof -
  let ?lm = "build_link_map w"
  let ?pos = "\<lambda>i. slot_name i = Some ''positive'' \<and> slot_link i \<noteq> None"
  let ?stop = "\<lambda>n. positive_source w ?lm (get_inputs n)"
  have L: "find_highest_order_saveimage w = None
      \<or> (\<exists>s. find_highest_order_saveimage w = Some s \<and> s \<in> set (wf_nodes w) \<and> is_saveimage s)"
  proof (cases "find_highest_order_saveimage w")
    case None
    then show ?thesis by simp
  next
    case (Some s)
    from locator_candidate[OF Some] Some show ?thesis by simp
  qed
  have P: "\<exists>r ord. bfs_upstream_to_positive_source w n = Some r
        \<and> spec_bfs_order (\<lambda>i. True) w ?lm [n] [] = Some ord
        \<and> (\<forall>e. r = Inl e \<longrightarrow>
             (\<exists>pre m post. ord = pre @ m # post
                \<and> (\<forall>x\<in>set pre. find ?pos (get_inputs x) = None \<and> resolves ?lm (\<lambda>i. True) x)
                \<and> lookup_fails ?lm (\<lambda>i. True) m e
                \<and> (\<forall>inp k. find ?pos (get_inputs m) = Some inp \<and> slot_link inp = Some k \<longrightarrow>
                      ?lm k = None \<and> e = KeyError k)))"
  proof -
    from bfs_loop_order[where stop = ?stop and sel = "\<lambda>i. True" and w = w and lm = ?lm
        and q = "[n]" and seen = "[]"]
    obtain ord s where
      o: "spec_bfs_order (\<lambda>i. True) w ?lm [n] [] = Some ord"
      and l: "positive_loop w [n] [] = Some (first_outcome ?stop (\<lambda>i. True) w ?lm ord, s)"
      unfolding positive_loop_def by blast
    from l have r: "bfs_upstream_to_positive_source w n
        = Some (first_outcome ?stop (\<lambda>i. True) w ?lm ord)"
      by (simp add: bfs_upstream_to_positive_source_def)
    have c: "\<exists>pre m post. ord = pre @ m # post
                \<and> (\<forall>x\<in>set pre. find ?pos (get_inputs x) = None \<and> resolves ?lm (\<lambda>i. True) x)
                \<and> lookup_fails ?lm (\<lambda>i. True) m e
                \<and> (\<forall>inp k. find ?pos (get_inputs m) = Some inp \<and> slot_link inp = Some k \<longrightarrow>
                      ?lm k = None \<and> e = KeyError k)"
      if "first_outcome ?stop (\<lambda>i. True) w ?lm ord = Inl e" for e
    proof -
      from first_outcome_Inl[OF that] obtain pre m post where
        s: "ord = pre @ m # post" and
        p: "\<forall>x\<in>set pre. ?stop x = None \<and> resolves ?lm (\<lambda>i. True) x" and
        m: "?stop m = Some (Inl e)
            \<or> ?stop m = None \<and> enqueue_preds w ?lm (\<lambda>i. True) (get_inputs m) = Inl e"
        by blast
      from p have p': "\<forall>x\<in>set pre. find ?pos (get_inputs x) = None \<and> resolves ?lm (\<lambda>i. True) x"
        by (simp add: positive_source_None)
      from m have "lookup_fails ?lm (\<lambda>i. True) m e
          \<and> (\<forall>inp k. find ?pos (get_inputs m) = Some inp \<and> slot_link inp = Some k \<longrightarrow>
                ?lm k = None \<and> e = KeyError k)"
      proof
        assume "?stop m = Some (Inl e)"
        from positive_source_Inl[OF this] obtain inp k where
          f: "find ?pos (get_inputs m) = Some inp" and i: "inp \<in> set (get_inputs m)" and
          k: "slot_link inp = Some k" and a: "?lm k = None" and e: "e = KeyError k" by blast
        from i k a e have "lookup_fails ?lm (\<lambda>i. True) m e"
          unfolding lookup_fails_def by blast
        moreover from f k a e
        have "\<forall>inp k. find ?pos (get_inputs m) = Some inp \<and> slot_link inp = Some k \<longrightarrow>
                ?lm k = None \<and> e = KeyError k" by simp
        ultimately show ?thesis by simp
      next
        assume a: "?stop m = None \<and> enqueue_preds w ?lm (\<lambda>i. True) (get_inputs m) = Inl e"
        then have "enqueue_preds w ?lm (\<lambda>i. True) (get_inputs m) = Inl e" by simp
        from enqueue_preds_Inl[OF this] have "lookup_fails ?lm (\<lambda>i. True) m e"
          unfolding lookup_fails_def by blast
        moreover from a have "find ?pos (get_inputs m) = None" by (simp add: positive_source_None)
        ultimately show ?thesis by simp
      qed
      with s p' show ?thesis by blast
    qed
    from r o c show ?thesis by blast
  qed
  have C: "\<exists>r ord. find_upstream_clip_encode w n = Some r
        \<and> spec_bfs_order allowed_type w ?lm [n] [] = Some ord
        \<and> (\<forall>e. r = Inl e \<longrightarrow>
             (\<exists>pre m post. ord = pre @ m # post
                \<and> (\<forall>x\<in>set pre. \<not> is_clip x \<and> resolves ?lm allowed_type x)
                \<and> \<not> is_clip m
                \<and> lookup_fails ?lm allowed_type m e))"
  proof -
    from bfs_loop_order[where stop = clip_stop and sel = allowed_type and w = w and lm = ?lm
        and q = "[n]" and seen = "[]"]
    obtain ord s where
      o: "spec_bfs_order allowed_type w ?lm [n] [] = Some ord"
      and l: "clip_loop w [n] [] = Some (first_outcome clip_stop allowed_type w ?lm ord, s)"
      unfolding clip_loop_def by blast
    from l have r: "find_upstream_clip_encode w n
        = Some (first_outcome clip_stop allowed_type w ?lm ord)"
      by (simp add: find_upstream_clip_encode_def)
    have c: "\<exists>pre m post. ord = pre @ m # post
                \<and> (\<forall>x\<in>set pre. \<not> is_clip x \<and> resolves ?lm allowed_type x)
                \<and> \<not> is_clip m
                \<and> lookup_fails ?lm allowed_type m e"
      if "first_outcome clip_stop allowed_type w ?lm ord = Inl e" for e
    proof -
      from first_outcome_Inl[OF that] obtain pre m post where
        s: "ord = pre @ m # post" and
        p: "\<forall>x\<in>set pre. clip_stop x = None \<and> resolves ?lm allowed_type x" and
        m: "clip_stop m = Some (Inl e)
            \<or> clip_stop m = None \<and> enqueue_preds w ?lm allowed_type (get_inputs m) = Inl e"
        by blast
      have ns: "\<not> is_clip x" if "clip_stop x = None" for x
        using that by (simp add: clip_stop_def split: if_splits)
      from p ns have p': "\<forall>x\<in>set pre. \<not> is_clip x \<and> resolves ?lm allowed_type x" by blast
      have "clip_stop m \<noteq> Some (Inl e)" by (simp add: clip_stop_def)
      with m have a: "clip_stop m = None"
        and b: "enqueue_preds w ?lm allowed_type (get_inputs m) = Inl e" by blast+
      from enqueue_preds_Inl[OF b] have "lookup_fails ?lm allowed_type m e"
        unfolding lookup_fails_def by blast
      with s p' ns[OF a] show ?thesis by blast
    qed
    from r o c show ?thesis by blast
  qed
  have R: "\<exists>r ord. extract_string_value_recursive w n = Some r
        \<and> spec_bfs_order text_source w ?lm [n] [] = Some ord
        \<and> (\<forall>e. r = Inl e \<longrightarrow>
             (\<exists>m. m \<in> set ord
                \<and> (clip_inline m = Inl e \<or> lookup_fails ?lm text_source m e)))"
  proof -
    from extract_returns obtain r where r: "extract_string_value_recursive w n = Some r" by blast
    from extract_raise_upstream[of w n] obtain ord where
      o: "spec_bfs_order text_source w ?lm [n] [] = Some ord" and
      c: "\<forall>e. extract_string_value_recursive w n = Some (Inl e) \<longrightarrow>
          (\<exists>m. m \<in> set ord
             \<and> (clip_inline m = Inl e \<or> lookup_fails ?lm text_source m e))" by blast
    have "\<exists>m. m \<in> set ord \<and> (clip_inline m = Inl e \<or> lookup_fails ?lm text_source m e)"
      if "r = Inl e" for e
      using c r that by simp
    with r o show ?thesis by blast
  qed
  have E0: "\<exists>p r. extract_final_positive_prompt_from_png doc = Some (p, r)"
    using entry_point_shape[of doc] by blast
  have E1: "extract_final_positive_prompt_from_png (WithWorkflow w) = Some (None, Some (ErrorReason e))"
    if "find_highest_order_saveimage w = Some save"
      "truthy_scalar (find_input_link_id save ''images'')"
      "link_source w ?lm (find_input_link_id save ''images'') = Inl e"
    using that by (simp add: extract_final_positive_prompt_from_png_def)
  have E2: "extract_final_positive_prompt_from_png (WithWorkflow w) = Some (None, Some (ErrorReason e))"
    if "find_highest_order_saveimage w = Some save"
      "truthy_scalar (find_input_link_id save ''images'')"
      "link_source w ?lm (find_input_link_id save ''images'') = Inr (Some start)"
      "bfs_upstream_to_positive_source w start = Some (Inl e)"
    using that by (simp add: extract_final_positive_prompt_from_png_def)
  have E3: "extract_final_positive_prompt_from_png (WithWorkflow w) = Some (None, Some (ErrorReason e))"
    if "find_highest_order_saveimage w = Some save"
      "truthy_scalar (find_input_link_id save ''images'')"
      "link_source w ?lm (find_input_link_id save ''images'') = Inr (Some start)"
      "bfs_upstream_to_positive_source w start = Some (Inr (Some pos))"
      "find_upstream_clip_encode w pos = Some (Inl e)"
    using that by (simp add: extract_final_positive_prompt_from_png_def)
  have E4: "extract_final_positive_prompt_from_png (WithWorkflow w) = Some (None, Some (ErrorReason e))"
    if "find_highest_order_saveimage w = Some save"
      "truthy_scalar (find_input_link_id save ''images'')"
      "link_source w ?lm (find_input_link_id save ''images'') = Inr (Some start)"
      "bfs_upstream_to_positive_source w start = Some (Inr (Some pos))"
      "find_upstream_clip_encode w pos = Some (Inr (Some enc))"
      "extract_string_value_recursive w enc = Some (Inl e)"
    using that by (simp add: extract_final_positive_prompt_from_png_def)
  show ?thesis
  proof (intro conjI impI)
    show "find_highest_order_saveimage w = None
      \<or> (\<exists>s. find_highest_order_saveimage w = Some s \<and> s \<in> set (wf_nodes w) \<and> is_saveimage s)"
      by (rule L)
  next
    show "\<exists>r ord. bfs_upstream_to_positive_source w n = Some r
        \<and> spec_bfs_order (\<lambda>i. True) w ?lm [n] [] = Some ord
        \<and> (\<forall>e. r = Inl e \<longrightarrow>
             (\<exists>pre m post. ord = pre @ m # post
                \<and> (\<forall>x\<in>set pre. find ?pos (get_inputs x) = None \<and> resolves ?lm (\<lambda>i. True) x)
                \<and> lookup_fails ?lm (\<lambda>i. True) m e
                \<and> (\<forall>inp k. find ?pos (get_inputs m) = Some inp \<and> slot_link inp = Some k \<longrightarrow>
                      ?lm k = None \<and> e = KeyError k)))"
      by (rule P)
  next
    show "\<exists>r ord. find_upstream_clip_encode w n = Some r
        \<and> spec_bfs_order allowed_type w ?lm [n] [] = Some ord
        \<and> (\<forall>e. r = Inl e \<longrightarrow>
             (\<exists>pre m post. ord = pre @ m # post
                \<and> (\<forall>x\<in>set pre. \<not> is_clip x \<and> resolves ?lm allowed_type x)
                \<and> \<not> is_clip m
                \<and> lookup_fails ?lm allowed_type m e))"
      by (rule C)
  next
    show "\<exists>r ord. extract_string_value_recursive w n = Some r
        \<and> spec_bfs_order text_source w ?lm [n] [] = Some ord
        \<and> (\<forall>e. r = Inl e \<longrightarrow>
             (\<exists>m. m \<in> set ord
                \<and> (clip_inline m = Inl e \<or> lookup_fails ?lm text_source m e)))"
      by (rule R)
  next
    show "\<exists>p r. extract_final_positive_prompt_from_png doc = Some (p, r)" by (rule E0)
  next
    assume "find_highest_order_saveimage w = Some save
        \<and> truthy_scalar (find_input_link_id save ''images'')
        \<and> link_source w ?lm (find_input_link_id save ''images'') = Inl e"
    then show "extract_final_positive_prompt_from_png (WithWorkflow w)
        = Some (None, Some (ErrorReason e))"
      by (elim conjE) (rule E1, assumption+)
  next
    assume "find_highest_order_saveimage w = Some save
        \<and> truthy_scalar (find_input_link_id save ''images'')
        \<and> link_source w ?lm (find_input_link_id save ''images'') = Inr (Some start)
        \<and> bfs_upstream_to_positive_source w start = Some (Inl e)"
    then show "extract_final_positive_prompt_from_png (WithWorkflow w)
        = Some (None, Some (ErrorReason e))"
      by (elim conjE) (rule E2, assumption+)
  next
    assume "find_highest_order_saveimage w = Some save
        \<and> truthy_scalar (find_input_link_id save ''images'')
        \<and> link_source w ?lm (find_input_link_id save ''images'') = Inr (Some start)
        \<and> bfs_upstream_to_positive_source w start = Some (Inr (Some pos))
        \<and> find_upstream_clip_encode w pos = Some (Inl e)"
    then show "extract_final_positive_prompt_from_png (WithWorkflow w)
        = Some (None, Some (ErrorReason e))"
      by (elim conjE) (rule E3, assumption+)
  next
    assume "find_highest_order_saveimage w = Some save
        \<and> truthy_scalar (find_input_link_id save ''images'')
        \<and> link_source w ?lm (find_input_link_id save ''images'') = Inr (Some start)
        \<and> bfs_upstream_to_positive_source w start = Some (Inr (Some pos))
        \<and> find_upstream_clip_encode w pos = Some (Inr (Some enc))
        \<and> extract_string_value_recursive w enc = Some (Inl e)"
    then show "extract_final_positive_prompt_from_png (WithWorkflow w)
        = Some (None, Some (ErrorReason e))"
      by (elim conjE) (rule E4, assumption+)
  qed
qed


theorem core_functions_raise_only_on_lookup_witness:
  "find_highest_order_saveimage cut_pipeline = Some save_image
   \<and> save_image \<in> set (wf_nodes cut_pipeline) \<and> is_saveimage save_image
   \<and> bfs_upstream_to_positive_source branches combine = Some (Inl (KeyError (JInt 99)))
   \<and> spec_bfs_order (\<lambda>i. True) branches (build_link_map branches) [combine] []
       = Some [combine, encoder_b, reroute, encoder_a]
   \<and> (\<exists>pre m post. [combine, encoder_b, reroute, encoder_a] = pre @ m # post
         \<and> lookup_fails (build_link_map branches) (\<lambda>i. True) m (KeyError (JInt 99)))
   \<and> find_upstream_clip_encode dangling dangling_text = Some (Inl (KeyError (JInt 99)))
   \<and> (\<exists>ord pre m post. spec_bfs_order allowed_type dangling (build_link_map dangling) [dangling_text] []
           = Some ord
         \<and> ord = pre @ m # post \<and> list_all (\<lambda>x. \<not> is_clip x) (pre @ [m])
         \<and> lookup_fails (build_link_map dangling) allowed_type m (KeyError (JInt 99)))
   \<and> extract_string_value_recursive branches dict_encoder = Some (Inl (KeyError (JInt 0)))
   \<and> spec_bfs_order text_source branches (build_link_map branches) [dict_encoder] []
       = Some [dict_encoder]
   \<and> (\<exists>m. m \<in> set [dict_encoder]
         \<and> (clip_inline m = Inl (KeyError (JInt 0))
             \<or> lookup_fails (build_link_map branches) text_source m (KeyError (JInt 0))))
   \<and> clip_inline dict_encoder = Inl (KeyError (JInt 0))
   \<and> truthy_scalar (find_input_link_id save_image ''images'')
   \<and> find_highest_order_saveimage no_links = Some save_image
   \<and> link_source no_links (build_link_map no_links) (find_input_link_id save_image ''images'')
       = Inl (KeyError (JInt 14))
   \<and> extract_final_positive_prompt_from_png (WithWorkflow no_links)
       = Some (None, Some (ErrorReason (KeyError (JInt 14))))
   \<and> link_source cut_pipeline (build_link_map cut_pipeline) (find_input_link_id save_image ''images'')
       = Inr (Some decoder)
   \<and> bfs_upstream_to_positive_source cut_pipeline decoder = Some (Inl (KeyError (JInt 12)))
   \<and> extract_final_positive_prompt_from_png (WithWorkflow cut_pipeline)
       = Some (None, Some (ErrorReason (KeyError (JInt 12))))
   \<and> find_highest_order_saveimage lost_clip = Some save_image
   \<and> link_source lost_clip (build_link_map lost_clip) (find_input_link_id save_image ''images'')
       = Inr (Some decoder)
   \<and> bfs_upstream_to_positive_source lost_clip decoder = Some (Inr (Some loose))
   \<and> find_upstream_clip_encode lost_clip loose = Some (Inl (KeyError (JInt 32)))
   \<and> extract_final_positive_prompt_from_png (WithWorkflow lost_clip)
       = Some (None, Some (ErrorReason (KeyError (JInt 32))))
   \<and> find_highest_order_saveimage lost_text = Some save_image
   \<and> link_source lost_text (build_link_map lost_text) (find_input_link_id save_image ''images'')
       = Inr (Some decoder)
   \<and> bfs_upstream_to_positive_source lost_text decoder = Some (Inr (Some linked_encoder))
   \<and> find_upstream_clip_encode lost_text linked_encoder = Some (Inr (Some linked_encoder))
   \<and> extract_string_value_recursive lost_text linked_encoder = Some (Inl (KeyError (JInt 99)))
   \<and> extract_final_positive_prompt_from_png (WithWorkflow lost_text)
       = Some (None, Some (ErrorReason (KeyError (JInt 99))))"
proof -
  have l: "find_highest_order_saveimage cut_pipeline = Some save_image" by code_simp
  note thm0 = core_functions_raise_only_on_lookup[where w = cut_pipeline, THEN conjunct1]
  with l have l': "save_image \<in> set (wf_nodes cut_pipeline) \<and> is_saveimage save_image" by simp
  have p: "bfs_upstream_to_positive_source branches combine = Some (Inl (KeyError (JInt 99)))"
    by code_simp
  have po: "spec_bfs_order (\<lambda>i. True) branches (build_link_map branches) [combine] []
       = Some [combine, encoder_b, reroute, encoder_a]" by code_simp
  have c: "find_upstream_clip_encode dangling dangling_text = Some (Inl (KeyError (JInt 99)))"
    by code_simp
  have r: "extract_string_value_recursive branches dict_encoder = Some (Inl (KeyError (JInt 0)))"
    by code_simp
  have ci: "clip_inline dict_encoder = Inl (KeyError (JInt 0))" by code_simp
  have t: "truthy_scalar (find_input_link_id save_image ''images'')" by code_simp
  note thm1 = core_functions_raise_only_on_lookup[where w = branches and n = combine,
      THEN conjunct2, THEN conjunct1]
  from thm1 obtain r1 ord1 where
    "bfs_upstream_to_positive_source branches combine = Some r1"
    "spec_bfs_order (\<lambda>i. True) branches (build_link_map branches) [combine] [] = Some ord1"
    "\<forall>e. r1 = Inl e \<longrightarrow>
       (\<exists>pre m post. ord1 = pre @ m # post
          \<and> (\<forall>x\<in>set pre.
                find (\<lambda>i. slot_name i = Some ''positive'' \<and> slot_link i \<noteq> None) (get_inputs x) = None
                \<and> resolves (build_link_map branches) (\<lambda>i. True) x)
          \<and> lookup_fails (build_link_map branches) (\<lambda>i. True) m e
          \<and> (\<forall>inp k.
                find (\<lambda>i. slot_name i = Some ''positive'' \<and> slot_link i \<noteq> None) (get_inputs m) = Some inp
                \<and> slot_link inp = Some k \<longrightarrow>
                build_link_map branches k = None \<and> e = KeyError k))"
    by (elim exE conjE) (rule that, assumption+)
  with p po have 1: "\<exists>pre m post. [combine, encoder_b, reroute, encoder_a] = pre @ m # post
         \<and> lookup_fails (build_link_map branches) (\<lambda>i. True) m (KeyError (JInt 99))"
    by auto
  note thm2 = core_functions_raise_only_on_lookup[where w = dangling and n = dangling_text,
      THEN conjunct2, THEN conjunct2, THEN conjunct1]
  from thm2 obtain r2 ord2 where
    "find_upstream_clip_encode dangling dangling_text = Some r2"
    "spec_bfs_order allowed_type dangling (build_link_map dangling) [dangling_text] [] = Some ord2"
    "\<forall>e. r2 = Inl e \<longrightarrow>
       (\<exists>pre m post. ord2 = pre @ m # post
          \<and> (\<forall>x\<in>set pre. \<not> is_clip x \<and> resolves (build_link_map dangling) allowed_type x)
          \<and> \<not> is_clip m
          \<and> lookup_fails (build_link_map dangling) allowed_type m e)"
    by (elim exE conjE) (rule that, assumption+)
  with c have 2: "\<exists>ord pre m post.
         spec_bfs_order allowed_type dangling (build_link_map dangling) [dangling_text] [] = Some ord
         \<and> ord = pre @ m # post \<and> list_all (\<lambda>x. \<not> is_clip x) (pre @ [m])
         \<and> lookup_fails (build_link_map dangling) allowed_type m (KeyError (JInt 99))"
    by (auto simp: list_all_iff)
  note thm3 = core_functions_raise_only_on_lookup[where w = branches and n = dict_encoder,
      THEN conjunct2, THEN conjunct2, THEN conjunct2, THEN conjunct1]
  have ro: "spec_bfs_order text_source branches (build_link_map branches) [dict_encoder] []
       = Some [dict_encoder]" by code_simp
  from thm3 obtain r3 ord3 where
    "extract_string_value_recursive branches dict_encoder = Some r3"
    "spec_bfs_order text_source branches (build_link_map branches) [dict_encoder] [] = Some ord3"
    "\<forall>e. r3 = Inl e \<longrightarrow>
       (\<exists>m. m \<in> set ord3
          \<and> (clip_inline m = Inl e \<or> lookup_fails (build_link_map branches) text_source m e))"
    by (elim exE conjE) (rule that, assumption+)
  with r ro have 3: "\<exists>m. m \<in> set [dict_encoder]
         \<and> (clip_inline m = Inl (KeyError (JInt 0))
             \<or> lookup_fails (build_link_map branches) text_source m (KeyError (JInt 0)))"
    by auto
  have l1: "find_highest_order_saveimage no_links = Some save_image" by code_simp
  have s1: "link_source no_links (build_link_map no_links) (find_input_link_id save_image ''images'')
      = Inl (KeyError (JInt 14))" by code_simp
  note thm4 = core_functions_raise_only_on_lookup[where w = no_links and save = save_image
      and e = "KeyError (JInt 14)",
      THEN conjunct2, THEN conjunct2, THEN conjunct2, THEN conjunct2, THEN conjunct2, THEN conjunct1]
  from thm4 l1 t s1
  have 4: "extract_final_positive_prompt_from_png (WithWorkflow no_links)
       = Some (None, Some (ErrorReason (KeyError (JInt 14))))" by blast
  have s2: "link_source cut_pipeline (build_link_map cut_pipeline)
      (find_input_link_id save_image ''images'') = Inr (Some decoder)" by code_simp
  have b2: "bfs_upstream_to_positive_source cut_pipeline decoder = Some (Inl (KeyError (JInt 12)))"
    by code_simp
  note thm5 = core_functions_raise_only_on_lookup[where w = cut_pipeline and save = save_image
      and e = "KeyError (JInt 12)" and start = decoder,
      THEN conjunct2, THEN conjunct2, THEN conjunct2, THEN conjunct2, THEN conjunct2, THEN conjunct2,
      THEN conjunct1]
  from thm5 l t s2 b2
  have 5: "extract_final_positive_prompt_from_png (WithWorkflow cut_pipeline)
       = Some (None, Some (ErrorReason (KeyError (JInt 12))))" by blast
  have l3: "find_highest_order_saveimage lost_clip = Some save_image" by code_simp
  have s3: "link_source lost_clip (build_link_map lost_clip)
      (find_input_link_id save_image ''images'') = Inr (Some decoder)" by code_simp
  have b3: "bfs_upstream_to_positive_source lost_clip decoder = Some (Inr (Some loose))"
    by code_simp
  have c3: "find_upstream_clip_encode lost_clip loose = Some (Inl (KeyError (JInt 32)))"
    by code_simp
  note thm6 = core_functions_raise_only_on_lookup[where w = lost_clip and save = save_image
      and e = "KeyError (JInt 32)" and start = decoder and pos = loose,
      THEN conjunct2, THEN conjunct2, THEN conjunct2, THEN conjunct2, THEN conjunct2, THEN conjunct2,
      THEN conjunct2, THEN conjunct1]
  from thm6 l3 t s3 b3 c3
  have 6: "extract_final_positive_prompt_from_png (WithWorkflow lost_clip)
       = Some (None, Some (ErrorReason (KeyError (JInt 32))))" by blast
  have l4: "find_highest_order_saveimage lost_text = Some save_image" by code_simp
  have s4: "link_source lost_text (build_link_map lost_text)
      (find_input_link_id save_image ''images'') = Inr (Some decoder)" by code_simp
  have b4: "bfs_upstream_to_positive_source lost_text decoder = Some (Inr (Some linked_encoder))"
    by code_simp
  have c4: "find_upstream_clip_encode lost_text linked_encoder = Some (Inr (Some linked_encoder))"
    by code_simp
  have x4: "extract_string_value_recursive lost_text linked_encoder
      = Some (Inl (KeyError (JInt 99)))" by code_simp
  note thm7 = core_functions_raise_only_on_lookup[where w = lost_text and save = save_image
      and e = "KeyError (JInt 99)" and start = decoder and pos = linked_encoder
      and enc = linked_encoder,
      THEN conjunct2, THEN conjunct2, THEN conjunct2, THEN conjunct2, THEN conjunct2, THEN conjunct2,
      THEN conjunct2, THEN conjunct2]
  from thm7 l4 t s4 b4 c4 x4
  have 7: "extract_final_positive_prompt_from_png (WithWorkflow lost_text)
       = Some (None, Some (ErrorReason (KeyError (JInt 99))))" by blast
  from l l' p po 1 c 2 r ro 3 ci t l1 s1 4 s2 b2 5 l3 s3 b3 c3 6 l4 s4 b4 c4 x4 7
  show ?thesis by (simp only: simp_thms)
qed

end
